theory Spec2Isabelle
  imports Main
begin

section \<open>Python bindings of CryptoMiniSat: the marshalling layer of pycryptosat.cpp\<close>

text \<open>
  The development embeds the functions of \<^verbatim>\<open>python/src/pycryptosat.cpp\<close>. C integers are
  modelled as \<open>int\<close> with their bounds written out (an LP64 platform: \<open>int\<close> has 32 bits,
  \<open>long\<close> has 64). The CPython error indicator is an \<open>error\<close> value; a C function that
  returns 0 or NULL with the indicator set returns \<open>Inl\<close> of that error here. Every function
  that can touch the engine returns the engine state next to its result, also when it fails.
  Allocation of Python objects always succeeds, and reference counts are left out.
\<close>

subsection \<open>Python objects and errors\<close>

text \<open>
  The Python objects the binding receives: \<open>None\<close>, booleans, integers of any size, lists
  (standing for lists and tuples) and \<open>array.array\<close> objects, given by their typecode, their
  itemsize and the integers they hold.
\<close>

datatype pyobj =
    PyNone
  | PyBool bool
  | PyLong int
  | PyList "pyobj list"
  | PyArray string int "int list"

text \<open>
  \<open>Fault\<close> stands for undefined behaviour of the C++ code (a read beyond the end of the
  model vector); the other values are the Python exception kinds the file raises.
\<close>

datatype error = TypeError | ValueError | OverflowError | SystemError | IllegalState | Fault

text \<open>A CPython tuple under construction: a slot that was never set holds NULL (\<open>None\<close> here).\<close>

type_synonym pytuple = "pyobj option list"

definition INT_MAX :: int where
  "INT_MAX = 2147483647"

definition INT_MIN :: int where
  "INT_MIN = - 2147483648"

definition LONG_MAX :: int where
  "LONG_MAX = 9223372036854775807"

definition LONG_MIN :: int where
  "LONG_MIN = - 9223372036854775808"

text \<open>\<^verbatim>\<open>IS_INT(x)\<close> is \<^verbatim>\<open>PyLong_Check(x)\<close>; Python's \<open>bool\<close> is a subclass of \<open>int\<close>.\<close>

fun IS_INT :: "pyobj \<Rightarrow> bool" where
  "IS_INT (PyLong v) = True"
| "IS_INT (PyBool b) = True"
| "IS_INT x = False"

text \<open>
  \<^verbatim>\<open>PyLong_AsLong\<close> on an integer object: the value when it fits a C \<open>long\<close>; otherwise it
  returns \<open>-1\<close> and leaves an \<open>OverflowError\<close> in the error indicator (the second
  component).
\<close>

fun PyLong_AsLong :: "pyobj \<Rightarrow> int \<times> error option" where
  "PyLong_AsLong (PyLong v) =
     (if LONG_MIN \<le> v \<and> v \<le> LONG_MAX then (v, None) else (- 1, Some OverflowError))"
| "PyLong_AsLong (PyBool b) = (if b then 1 else 0, None)"
| "PyLong_AsLong x = (- 1, Some TypeError)"

text \<open>
  \<^verbatim>\<open>PyObject_GetIter\<close> followed by \<^verbatim>\<open>PyIter_Next\<close> until exhaustion: the items of an
  iterable, \<open>None\<close> for an object that is not iterable.
\<close>

fun PyObject_GetIter :: "pyobj \<Rightarrow> pyobj list option" where
  "PyObject_GetIter (PyList xs) = Some xs"
| "PyObject_GetIter (PyArray tc isz vs) = Some (map PyLong vs)"
| "PyObject_GetIter x = None"

subsection \<open>The engine\<close>

datatype lbool = l_True | l_False | l_Undef

text \<open>\<^verbatim>\<open>Lit(var, is_inverted)\<close> of the engine: a variable index and a sign (\<open>True\<close> = negated).\<close>

datatype Lit = Lit (var: nat) (sign: bool)

text \<open>
  Modelled from the spec: the class \<^verbatim>\<open>SATSolver\<close> of the engine (declared in
  \<^verbatim>\<open>cryptominisat5/cryptominisat.h\<close>, not part of the binding's source). Section 6 of the
  spec gives its interface: the number of variables \<open>nVars()\<close>, the committed clauses and
  XOR clauses, and the \<open>model\<close> vector of the last solve.
\<close>

record SATSolver =
  nVars :: nat
  clauses :: "Lit list list"
  xors :: "(nat list \<times> bool) list"
  model :: "lbool list"

text \<open>Modelled from the spec: \<open>new_vars(k)\<close> of the engine allocates \<open>k\<close> variables.\<close>

definition cmsat_new_vars :: "nat \<Rightarrow> SATSolver \<Rightarrow> SATSolver" where
  "cmsat_new_vars k e = e\<lparr>nVars := nVars e + k\<rparr>"

text \<open>Modelled from the spec: \<open>new_var()\<close> of the engine allocates one variable.\<close>

definition cmsat_new_var :: "SATSolver \<Rightarrow> SATSolver" where
  "cmsat_new_var e = e\<lparr>nVars := nVars e + 1\<rparr>"

text \<open>Modelled from the spec: \<open>add_clause(literals)\<close> of the engine commits a clause.\<close>

definition cmsat_add_clause :: "Lit list \<Rightarrow> SATSolver \<Rightarrow> SATSolver" where
  "cmsat_add_clause lits e = e\<lparr>clauses := clauses e @ [lits]\<rparr>"

text \<open>Modelled from the spec: \<open>add_xor_clause(vars, rhs)\<close> of the engine commits an XOR clause.\<close>

definition cmsat_add_xor_clause :: "nat list \<Rightarrow> bool \<Rightarrow> SATSolver \<Rightarrow> SATSolver" where
  "cmsat_add_xor_clause vs rhs e = e\<lparr>xors := xors e @ [(vs, rhs)]\<rparr>"

text \<open>
  The search procedure of the engine is a parameter of the development: a function from
  the committed constraints (variable count, clauses, XOR clauses) and the assumptions of
  one call to the three-valued verdict and the model vector.
\<close>

type_synonym search = "nat \<Rightarrow> Lit list list \<Rightarrow> (nat list \<times> bool) list \<Rightarrow> Lit list \<Rightarrow> lbool \<times> lbool list"

text \<open>
  Modelled from the spec: \<open>solve(assumptions)\<close> of the engine returns the verdict and
  stores the model; it commits nothing.
\<close>

definition cmsat_solve :: "search \<Rightarrow> Lit list \<Rightarrow> SATSolver \<Rightarrow> lbool \<times> SATSolver" where
  "cmsat_solve slv as e =
     (case slv (nVars e) (clauses e) (xors e) as of (res, m) \<Rightarrow> (res, e\<lparr>model := m\<rparr>))"

subsection \<open>The literal codec\<close>

text \<open>
  \<^verbatim>\<open>convert_lit_to_sign_and_var\<close>: \<open>Inl\<close> is the error of a return of 0; \<open>Inr ((var, sign), pend)\<close>
  is a return of 1 with the two output parameters, \<open>pend\<close> being the error that
  \<^verbatim>\<open>PyLong_AsLong\<close> left in the indicator (the function does not look at it).
\<close>

definition convert_lit_to_sign_and_var :: "pyobj \<Rightarrow> error + (int \<times> bool) \<times> error option" where
  "convert_lit_to_sign_and_var lit =
     (if \<not> IS_INT lit then Inl TypeError
      else case PyLong_AsLong lit of (val, pend) \<Rightarrow>
        if val = 0 then Inl ValueError
        else if val > INT_MAX div 2 \<or> val < INT_MIN div 2 then Inl ValueError
        else Inr ((\<bar>val\<bar> - 1, val < 0), pend))"

text \<open>
  The encoding of an engine literal as a signed integer, as the loop body of
  \<^verbatim>\<open>get_next_small_clause\<close> computes it: \<open>var + 1\<close>, times \<open>-1\<close> when the sign is set.
\<close>

definition encode_lit :: "Lit \<Rightarrow> int" where
  "encode_lit l = (let ll = int (var l) + 1 in if sign l then ll * (- 1) else ll)"

subsection \<open>Clause parsing and the sequence form of ingestion\<close>

text \<open>
  The loop of \<^verbatim>\<open>parse_clause\<close> over the items of the iterator: \<open>max_var\<close>, the vector
  \<open>lits\<close> and the pending error are the loop's state.
\<close>

fun parse_clause_loop ::
  "pyobj list \<Rightarrow> int \<Rightarrow> Lit list \<Rightarrow> error option \<Rightarrow> error + int \<times> Lit list \<times> error option" where
  "parse_clause_loop [] max_var lits pend = Inr (max_var, lits, pend)"
| "parse_clause_loop (lit # rest) max_var lits pend =
     (case convert_lit_to_sign_and_var lit of
        Inl e \<Rightarrow> Inl e
      | Inr ((v, sg), p) \<Rightarrow>
          parse_clause_loop rest (max v max_var) (lits @ [Lit (nat v) sg])
            (case p of None \<Rightarrow> pend | Some e \<Rightarrow> Some e))"

text \<open>
  \<^verbatim>\<open>parse_clause\<close>: the variable space grows once, after the loop, and before the final
  look at the error indicator.
\<close>

definition parse_clause :: "SATSolver \<Rightarrow> pyobj \<Rightarrow> Lit list \<Rightarrow> (error + Lit list) \<times> SATSolver" where
  "parse_clause self clause lits0 =
     (case PyObject_GetIter clause of
        None \<Rightarrow> (Inl TypeError, self)
      | Some items \<Rightarrow>
          (case parse_clause_loop items 0 lits0 None of
             Inl e \<Rightarrow> (Inl e, self)
           | Inr (max_var, lits, pend) \<Rightarrow>
               let self' =
                 (if lits \<noteq> [] \<and> max_var \<ge> int (nVars self)
                  then cmsat_new_vars (nat (max_var - int (nVars self) + 1)) self
                  else self)
               in (case pend of Some e \<Rightarrow> (Inl e, self') | None \<Rightarrow> (Inr lits, self'))))"

text \<open>
  \<^verbatim>\<open>_add_clause\<close> (written \<open>u_add_clause\<close>: an Isabelle name cannot start with an
  underscore). The scratch vector \<^verbatim>\<open>tmp_cl_lits\<close> is cleared before every use, so it is a
  local value here.
\<close>

definition u_add_clause :: "SATSolver \<Rightarrow> pyobj \<Rightarrow> (error + unit) \<times> SATSolver" where
  "u_add_clause self clause =
     (case parse_clause self clause [] of
        (Inl e, self') \<Rightarrow> (Inl e, self')
      | (Inr lits, self') \<Rightarrow> (Inr (), cmsat_add_clause lits self'))"

definition add_clause :: "SATSolver \<Rightarrow> pyobj \<Rightarrow> (error + unit) \<times> SATSolver" where
  "add_clause self clause = u_add_clause self clause"

subsection \<open>The flat-buffer form of ingestion\<close>

text \<open>
  The inner loop of \<^verbatim>\<open>_add_clauses_from_array\<close>: it reads literals from position \<open>k\<close> on
  until a zero or the end of the array, and returns the part of the array that is left
  (starting at the separator it stopped at), the vector \<open>lits\<close> and \<open>max_var\<close>.
\<close>

fun array_run :: "int list \<Rightarrow> Lit list \<Rightarrow> int \<Rightarrow> error + int list \<times> Lit list \<times> int" where
  "array_run [] lits max_var = Inr ([], lits, max_var)"
| "array_run (val # rest) lits max_var =
     (if val = 0 then Inr (val # rest, lits, max_var)
      else if val > INT_MAX div 2 \<or> val < INT_MIN div 2 then Inl ValueError
      else array_run rest (lits @ [Lit (nat (\<bar>val\<bar> - 1)) (val < 0)]) (max (\<bar>val\<bar> - 1) max_var))"

lemma array_run_length:
  "array_run xs lits mv = Inr (stop, lits', mv') \<Longrightarrow> length stop \<le> length xs"
proof (induction xs arbitrary: lits mv)
  case Nil
  then show ?case by simp
next
  case (Cons a xs)
  show ?case
  proof (cases "a = 0")
    case True
    with Cons.prems show ?thesis by simp
  next
    case False
    with Cons.prems have "array_run xs (lits @ [Lit (nat (\<bar>a\<bar> - 1)) (a < 0)]) (max (\<bar>a\<bar> - 1) mv)
        = Inr (stop, lits', mv')"
      by (simp split: if_splits)
    then have "length stop \<le> length xs" by (rule Cons.IH)
    then show ?thesis by simp
  qed
qed

text \<open>
  The outer loop: one run per iteration, committed when it is not empty; the increment
  \<^verbatim>\<open>++k\<close> of the outer loop steps over the separator (\<open>tl\<close>).
\<close>

function u_add_clauses_from_array_loop :: "int list \<Rightarrow> SATSolver \<Rightarrow> (error + unit) \<times> SATSolver" where
  "u_add_clauses_from_array_loop [] self = (Inr (), self)"
| "u_add_clauses_from_array_loop (val # rest) self =
     (case array_run (val # rest) [] 0 of
        Inl e \<Rightarrow> (Inl e, self)
      | Inr (stop, lits, max_var) \<Rightarrow>
          u_add_clauses_from_array_loop (tl stop)
            (if lits \<noteq> [] then
               cmsat_add_clause lits
                 (if max_var \<ge> int (nVars self)
                  then cmsat_new_vars (nat (max_var - int (nVars self) + 1)) self
                  else self)
             else self))"
  by pat_completeness auto
termination
proof (relation "measure (\<lambda>(xs, s). length xs)", goal_cases)
  case 1
  show ?case by simp
next
  case (2 val rest self x2 stop y lits max_var)
  then have "length stop \<le> length (val # rest)"
    using array_run_length by blast
  then show ?case by (cases stop) auto
qed

definition u_add_clauses_from_array :: "SATSolver \<Rightarrow> int list \<Rightarrow> (error + unit) \<times> SATSolver" where
  "u_add_clauses_from_array self array =
     (if length array = 0 then (Inr (), self)
      else if array ! (length array - 1) \<noteq> 0 then (Inl ValueError, self)
      else u_add_clauses_from_array_loop array self)"

text \<open>
  \<^verbatim>\<open>_add_clauses_from_buffer_info\<close>: \<open>sizeof(int) = 4\<close>, \<open>sizeof(long) = sizeof(long long) = 8\<close>.
\<close>

definition u_add_clauses_from_buffer_info ::
  "SATSolver \<Rightarrow> int list \<Rightarrow> int \<Rightarrow> (error + unit) \<times> SATSolver" where
  "u_add_clauses_from_buffer_info self array itemsize =
     (if itemsize = 4 then u_add_clauses_from_array self array
      else if itemsize = 8 then u_add_clauses_from_array self array
      else (Inl ValueError, self))"

text \<open>\<^verbatim>\<open>_check_array_typecode\<close>: a typecode of one character, one of i, l and q.\<close>

definition u_check_array_typecode :: "string \<Rightarrow> error option" where
  "u_check_array_typecode typecode =
     (case typecode of
        [c] \<Rightarrow> if c \<noteq> CHR ''i'' \<and> c \<noteq> CHR ''l'' \<and> c \<noteq> CHR ''q'' then Some ValueError else None
      | _ \<Rightarrow> Some ValueError)"

definition add_clauses_array ::
  "SATSolver \<Rightarrow> string \<Rightarrow> int \<Rightarrow> int list \<Rightarrow> (error + unit) \<times> SATSolver" where
  "add_clauses_array self typecode itemsize array =
     (case u_check_array_typecode typecode of
        Some e \<Rightarrow> (Inl e, self)
      | None \<Rightarrow>
          if itemsize < 0 then (Inl ValueError, self)
          else u_add_clauses_from_buffer_info self array itemsize)"

subsection \<open>The bulk form of ingestion\<close>

fun add_clauses_loop :: "pyobj list \<Rightarrow> SATSolver \<Rightarrow> (error + unit) \<times> SATSolver" where
  "add_clauses_loop [] self = (Inr (), self)"
| "add_clauses_loop (clause # rest) self =
     (case u_add_clause self clause of
        (Inl e, self') \<Rightarrow> (Inl e, self')
      | (Inr u, self') \<Rightarrow> add_clauses_loop rest self')"

text \<open>
  \<^verbatim>\<open>add_clauses(clauses, max_var = 0)\<close>: an object with the attributes \<open>buffer_info\<close>,
  \<open>typecode\<close> and \<open>itemsize\<close> is an array; anything else is iterated.
\<close>

definition add_clauses :: "SATSolver \<Rightarrow> pyobj \<Rightarrow> int \<Rightarrow> (error + unit) \<times> SATSolver" where
  "add_clauses self clauses_arg max_var =
     (let self1 =
        (if max_var > int (nVars self)
         then cmsat_new_vars (nat (max_var - int (nVars self))) self
         else self)
      in case clauses_arg of
           PyArray typecode itemsize array \<Rightarrow> add_clauses_array self1 typecode itemsize array
         | _ \<Rightarrow>
           (case PyObject_GetIter clauses_arg of
              None \<Rightarrow> (Inl TypeError, self1)
            | Some cls \<Rightarrow> add_clauses_loop cls self1))"

subsection \<open>XOR clauses\<close>

fun parse_xor_clause_loop ::
  "pyobj list \<Rightarrow> nat list \<Rightarrow> error option \<Rightarrow> SATSolver \<Rightarrow> (error + nat list \<times> error option) \<times> SATSolver" where
  "parse_xor_clause_loop [] vars pend self = (Inr (vars, pend), self)"
| "parse_xor_clause_loop (lit # rest) vars pend self =
     (case convert_lit_to_sign_and_var lit of
        Inl e \<Rightarrow> (Inl e, self)
      | Inr ((v, sg), p) \<Rightarrow>
          if sg then (Inl ValueError, self)
          else parse_xor_clause_loop rest (vars @ [nat v])
                 (case p of None \<Rightarrow> pend | Some e \<Rightarrow> Some e)
                 (if v \<ge> int (nVars self)
                  then (cmsat_new_var ^^ nat (v + 1 - int (nVars self))) self
                  else self))"

definition parse_xor_clause :: "SATSolver \<Rightarrow> pyobj \<Rightarrow> nat list \<Rightarrow> (error + nat list) \<times> SATSolver" where
  "parse_xor_clause self clause vars0 =
     (case PyObject_GetIter clause of
        None \<Rightarrow> (Inl TypeError, self)
      | Some items \<Rightarrow>
          (case parse_xor_clause_loop items vars0 None self of
             (Inl e, self') \<Rightarrow> (Inl e, self')
           | (Inr (vars, Some e), self') \<Rightarrow> (Inl e, self')
           | (Inr (vars, None), self') \<Rightarrow> (Inr vars, self')))"

definition add_xor_clause :: "SATSolver \<Rightarrow> pyobj \<Rightarrow> pyobj \<Rightarrow> (error + unit) \<times> SATSolver" where
  "add_xor_clause self clause rhs =
     (case rhs of
        PyBool real_rhs \<Rightarrow>
          (case parse_xor_clause self clause [] of
             (Inl e, self') \<Rightarrow> (Inl e, self')
           | (Inr vars, self') \<Rightarrow> (Inr (), cmsat_add_xor_clause vars real_rhs self'))
      | _ \<Rightarrow> (Inl TypeError, self))"

subsection \<open>Solution extraction\<close>

text \<open>
  \<^verbatim>\<open>get_solution\<close>: a tuple of \<open>nVars + 1\<close> slots, slot 0 holding \<open>None\<close>. Reading the model
  vector beyond its end is undefined in C++; it is the \<open>Fault\<close> here.
\<close>

definition get_solution :: "SATSolver \<Rightarrow> error + pytuple" where
  "get_solution cmsat =
     (let max_idx = nVars cmsat in
      if length (model cmsat) < max_idx then Inl Fault
      else Inr (Some PyNone #
        map (\<lambda>i. case model cmsat ! i of
                    l_True \<Rightarrow> Some (PyBool True)
                  | l_False \<Rightarrow> Some (PyBool False)
                  | l_Undef \<Rightarrow> Some PyNone) [0..<max_idx]))"

text \<open>
  \<^verbatim>\<open>get_raw_solution\<close>: a tuple of \<open>nVars\<close> slots; the slot of variable \<open>var\<close> is set to
  \<open>(var + 1) * sign\<close> when the variable is assigned and is left as it was allocated (NULL)
  otherwise.
\<close>

definition get_raw_solution :: "SATSolver \<Rightarrow> error + pytuple" where
  "get_raw_solution cmsat =
     (let max_idx = nVars cmsat in
      if length (model cmsat) < max_idx then Inl Fault
      else Inr (
        map (\<lambda>v. if model cmsat ! v \<noteq> l_Undef
                  then Some (PyLong ((int v + 1) * (if model cmsat ! v = l_True then 1 else - 1)))
                  else None) [0..<max_idx]))"

definition nb_vars :: "SATSolver \<Rightarrow> pyobj" where
  "nb_vars self = PyLong (int (nVars self))"

subsection \<open>Solving\<close>

fun parse_assumption_loop ::
  "pyobj list \<Rightarrow> SATSolver \<Rightarrow> Lit list \<Rightarrow> error option \<Rightarrow> error + Lit list \<times> error option" where
  "parse_assumption_loop [] cmsat lits pend = Inr (lits, pend)"
| "parse_assumption_loop (lit # rest) cmsat lits pend =
     (case convert_lit_to_sign_and_var lit of
        Inl e \<Rightarrow> Inl e
      | Inr ((v, sg), p) \<Rightarrow>
          if v \<ge> int (nVars cmsat) then Inl ValueError
          else parse_assumption_loop rest cmsat (lits @ [Lit (nat v) sg])
                 (case p of None \<Rightarrow> pend | Some e \<Rightarrow> Some e))"

definition parse_assumption_lits :: "pyobj \<Rightarrow> SATSolver \<Rightarrow> Lit list \<Rightarrow> error + Lit list" where
  "parse_assumption_lits assumptions cmsat lits0 =
     (case PyObject_GetIter assumptions of
        None \<Rightarrow> Inl TypeError
      | Some items \<Rightarrow>
          (case parse_assumption_loop items cmsat lits0 None of
             Inl e \<Rightarrow> Inl e
           | Inr (lits, Some e) \<Rightarrow> Inl e
           | Inr (lits, None) \<Rightarrow> Inr lits))"

text \<open>
  \<^verbatim>\<open>solve(assumptions = NULL)\<close>: the argument is \<open>None\<close> when the caller gives none. The
  result is the pair of the Python tuple: \<open>(True, solution)\<close>, \<open>(False, None)\<close> or
  \<open>(None, None)\<close>.
\<close>

definition solve ::
  "search \<Rightarrow> SATSolver \<Rightarrow> pyobj option \<Rightarrow> (error + pyobj \<times> pytuple option) \<times> SATSolver" where
  "solve slv self assumptions =
     (case (case assumptions of None \<Rightarrow> Inr [] | Some a \<Rightarrow> parse_assumption_lits a self []) of
        Inl e \<Rightarrow> (Inl e, self)
      | Inr assumption_lits \<Rightarrow>
          (case cmsat_solve slv assumption_lits self of
             (l_True, self') \<Rightarrow>
               (case get_solution self' of
                  Inl e \<Rightarrow> (Inl e, self')
                | Inr solution \<Rightarrow> (Inr (PyBool True, Some solution), self'))
           | (l_False, self') \<Rightarrow> (Inr (PyBool False, None), self')
           | (l_Undef, self') \<Rightarrow> (Inr (PyNone, None), self')))"

definition is_satisfiable :: "search \<Rightarrow> SATSolver \<Rightarrow> (error + pyobj) \<times> SATSolver" where
  "is_satisfiable slv self =
     (case cmsat_solve slv [] self of
        (l_True, self') \<Rightarrow> (Inr (PyBool True), self')
      | (l_False, self') \<Rightarrow> (Inr (PyBool False), self')
      | (l_Undef, self') \<Rightarrow> (Inr PyNone, self'))"

subsection \<open>Enumeration of solutions\<close>

text \<open>
  The loop of \<^verbatim>\<open>msolve_selected\<close> that builds \<^verbatim>\<open>ban_solution\<close>: one literal per entry
  of \<open>var_lits\<close> whose sign is false, negative exactly when the model holds \<open>l_True\<close>.
\<close>

fun ban_solution_loop :: "Lit list \<Rightarrow> lbool list \<Rightarrow> Lit list \<Rightarrow> Lit list" where
  "ban_solution_loop [] m ban = ban"
| "ban_solution_loop (l # rest) m ban =
     ban_solution_loop rest m
       (if sign l = False then ban @ [Lit (var l) (m ! var l = l_True)] else ban)"

definition ban_solution :: "Lit list \<Rightarrow> lbool list \<Rightarrow> Lit list" where
  "ban_solution var_lits m = ban_solution_loop var_lits m []"

text \<open>
  The \<^verbatim>\<open>while\<close> loop of \<^verbatim>\<open>msolve_selected\<close>. The loop is entered with \<open>res = l_True\<close> and
  comes back to its head only after a satisfiable solve, so its condition is
  \<open>current_nr_of_solutions < max_nr_of_solutions\<close>.
\<close>

function msolve_loop ::
  "search \<Rightarrow> int \<Rightarrow> int \<Rightarrow> Lit list \<Rightarrow> bool \<Rightarrow> pytuple list \<Rightarrow> SATSolver
     \<Rightarrow> (error + pytuple list) \<times> SATSolver" where
  "msolve_loop slv max_nr cur var_lits raw solutions self =
     (if cur < max_nr then
        (case cmsat_solve slv [] self of
           (l_True, self1) \<Rightarrow>
             (case (if \<not> raw then get_solution self1 else get_raw_solution self1) of
                Inl e \<Rightarrow> (Inl e, self1)
              | Inr solution \<Rightarrow>
                  msolve_loop slv max_nr (cur + 1) var_lits raw (solutions @ [solution])
                    (if cur + 1 < max_nr
                     then cmsat_add_clause (ban_solution var_lits (model self1)) self1
                     else self1))
         | (l_False, self1) \<Rightarrow> (Inr solutions, self1)
         | (l_Undef, self1) \<Rightarrow> (Inl SystemError, self1))
      else (Inr solutions, self))"
  by pat_completeness auto
termination
  by (relation "measure (\<lambda>(slv, max_nr, cur, r). nat (max_nr - cur))") auto

definition msolve_selected ::
  "search \<Rightarrow> SATSolver \<Rightarrow> int \<Rightarrow> pyobj \<Rightarrow> bool \<Rightarrow> (error + pytuple list) \<times> SATSolver" where
  "msolve_selected slv self max_nr_of_solutions var_selected raw_solutions_activated =
     (case parse_clause self var_selected [] of
        (Inl e, self') \<Rightarrow> (Inl e, self')
      | (Inr var_lits, self') \<Rightarrow>
          msolve_loop slv max_nr_of_solutions 0 var_lits raw_solutions_activated [] self')"

subsection \<open>Sequences of calls\<close>

text \<open>The methods of the Solver object that reach the variable space, the clauses or the model.\<close>

datatype call =
    Call_add_clause pyobj
  | Call_add_clauses pyobj int
  | Call_add_xor_clause pyobj pyobj
  | Call_solve "pyobj option"
  | Call_is_satisfiable
  | Call_msolve_selected int pyobj bool
  | Call_nb_vars

fun exec :: "search \<Rightarrow> SATSolver \<Rightarrow> call \<Rightarrow> SATSolver" where
  "exec slv self (Call_add_clause c) = snd (add_clause self c)"
| "exec slv self (Call_add_clauses cs mv) = snd (add_clauses self cs mv)"
| "exec slv self (Call_add_xor_clause c rhs) = snd (add_xor_clause self c rhs)"
| "exec slv self (Call_solve a) = snd (solve slv self a)"
| "exec slv self Call_is_satisfiable = snd (is_satisfiable slv self)"
| "exec slv self (Call_msolve_selected n vs raw) = snd (msolve_selected slv self n vs raw)"
| "exec slv self Call_nb_vars = self"

definition run :: "search \<Rightarrow> SATSolver \<Rightarrow> call list \<Rightarrow> SATSolver" where
  "run slv self cs = foldl (exec slv) self cs"

subsection \<open>What the layer expects of the engine\<close>

text \<open>A literal is true in a model vector.\<close>

definition lit_true :: "lbool list \<Rightarrow> Lit \<Rightarrow> bool" where
  "lit_true m l = (var l < length m \<and> m ! var l = (if sign l then l_False else l_True))"

text \<open>
  Modelled from the spec: a satisfiable verdict comes with a model that has one entry per
  variable and makes at least one literal of every committed clause true.
\<close>

definition engine_sound :: "search \<Rightarrow> bool" where
  "engine_sound slv =
     (\<forall>n cls xs as m. slv n cls xs as = (l_True, m) \<longrightarrow>
        length m = n \<and> (\<forall>c \<in> set cls. \<exists>l \<in> set c. lit_true m l))"

text \<open>Modelled from the spec: no limit is configured, so the engine never answers unknown.\<close>

definition engine_decides :: "search \<Rightarrow> bool" where
  "engine_decides slv = (\<forall>n cls xs as. fst (slv n cls xs as) \<noteq> l_Undef)"

text \<open>
  A reference search by exhaustion, used to instantiate the engine at concrete inputs: the
  first total assignment, in a fixed order, that satisfies the clauses, the XOR clauses
  and the assumptions.
\<close>

fun all_models :: "nat \<Rightarrow> lbool list list" where
  "all_models 0 = [[]]"
| "all_models (Suc n) = concat (map (\<lambda>m. [l_True # m, l_False # m]) (all_models n))"

definition xor_holds :: "lbool list \<Rightarrow> nat list \<times> bool \<Rightarrow> bool" where
  "xor_holds m x = (foldr (\<lambda>v acc. (v < length m \<and> m ! v = l_True) \<noteq> acc) (fst x) False = snd x)"

definition ref_search :: search where
  "ref_search n cls xs as =
     (case find (\<lambda>m. list_all (list_ex (lit_true m)) cls \<and> list_all (xor_holds m) xs
                      \<and> list_all (lit_true m) as) (all_models n) of
        None \<Rightarrow> (l_False, [])
      | Some m \<Rightarrow> (l_True, m))"

subsection \<open>Auxiliary notions\<close>

text \<open>A later engine state extends an earlier one: no variable and no clause is lost.\<close>

definition extends :: "SATSolver \<Rightarrow> SATSolver \<Rightarrow> bool" where
  "extends s s' = (nVars s \<le> nVars s' \<and> (\<exists>ys. clauses s' = clauses s @ ys))"

text \<open>
  The engine literal that the parsing loops push for an integer object whose conversion
  succeeds: \<^verbatim>\<open>Lit(var, sign)\<close> with \<open>var = |val| - 1\<close> and \<open>sign = (val < 0)\<close>.
\<close>

definition decode_lit :: "pyobj \<Rightarrow> Lit" where
  "decode_lit x = (let val = fst (PyLong_AsLong x) in Lit (nat (\<bar>val\<bar> - 1)) (val < 0))"

text \<open>The value of \<open>max_var\<close> after the parsing loop: it starts at 0.\<close>

definition max_var_of :: "Lit list \<Rightarrow> int" where
  "max_var_of ls = fold (\<lambda>l m. max (int (var l)) m) ls 0"

text \<open>The engine literal of a non-zero integer \<open>val\<close>, as both ingestion paths build it.\<close>

definition lit_of_int :: "int \<Rightarrow> Lit" where
  "lit_of_int val = Lit (nat (\<bar>val\<bar> - 1)) (val < 0)"

text \<open>The engine state with its variable space grown to at least \<open>k\<close> variables.\<close>

definition pregrow :: "nat \<Rightarrow> SATSolver \<Rightarrow> SATSolver" where
  "pregrow k s = s\<lparr>nVars := max (nVars s) k\<rparr>"

text \<open>
  Two solutions of the same format differ in the assignment of a projection variable: the
  slot of some projected variable of false sign (\<open>var\<close> in a raw tuple, \<open>var + 1\<close> in a
  dense one) holds different values.
\<close>

definition differ_on :: "bool \<Rightarrow> Lit list \<Rightarrow> pytuple \<Rightarrow> pytuple \<Rightarrow> bool" where
  "differ_on raw var_lits a b =
     (\<exists>l \<in> set var_lits. \<not> sign l
        \<and> a ! (if raw then var l else var l + 1) \<noteq> b ! (if raw then var l else var l + 1))"

definition pairwise_differ :: "bool \<Rightarrow> Lit list \<Rightarrow> pytuple list \<Rightarrow> bool" where
  "pairwise_differ raw var_lits sols =
     (\<forall>i j. i < j \<and> j < length sols \<longrightarrow> differ_on raw var_lits (sols ! i) (sols ! j))"

text \<open>A solution is the rendering of a model whose blocking clause is committed.\<close>

definition banned :: "bool \<Rightarrow> Lit list \<Rightarrow> SATSolver \<Rightarrow> pytuple \<Rightarrow> bool" where
  "banned raw var_lits s sol =
     (\<exists>m. length m = nVars s
        \<and> (if \<not> raw then get_solution (s\<lparr>model := m\<rparr>) else get_raw_solution (s\<lparr>model := m\<rparr>)) = Inr sol
        \<and> ban_solution var_lits m \<in> set (clauses s))"

section \<open>Properties\<close>

declare u_add_clauses_from_array_loop.simps [simp del]
declare msolve_loop.simps [simp del]

subsection \<open>Every operation extends the engine state\<close>

lemma extends_refl: "extends s s"
  by (simp add: extends_def)

lemma extends_trans: "extends s t \<Longrightarrow> extends t u \<Longrightarrow> extends s u"
  by (auto simp: extends_def)

lemma extends_new_vars: "extends s (cmsat_new_vars k s)"
  by (simp add: extends_def cmsat_new_vars_def)

lemma extends_add_clause: "extends s (cmsat_add_clause c s)"
  by (simp add: extends_def cmsat_add_clause_def)

lemma extends_add_xor: "extends s (cmsat_add_xor_clause vs b s)"
  by (simp add: extends_def cmsat_add_xor_clause_def)

lemma new_var_funpow: "(cmsat_new_var ^^ k) s = s\<lparr>nVars := nVars s + k\<rparr>"
  by (induction k) (simp_all add: cmsat_new_var_def)

lemma extends_new_var_funpow: "extends s ((cmsat_new_var ^^ k) s)"
  by (simp add: new_var_funpow extends_def)

lemma extends_solve: "extends s (snd (cmsat_solve slv as s))"
  by (simp add: cmsat_solve_def extends_def split: prod.splits)

lemma cmsat_solve_frame:
  "cmsat_solve slv as s = (r, s') \<Longrightarrow>
     nVars s' = nVars s \<and> clauses s' = clauses s \<and> xors s' = xors s"
  by (auto simp: cmsat_solve_def split: prod.splits)

lemma parse_clause_frame:
  "parse_clause s c l0 = (r, s') \<Longrightarrow>
     nVars s \<le> nVars s' \<and> clauses s' = clauses s \<and> xors s' = xors s \<and> model s' = model s"
  by (auto simp: parse_clause_def cmsat_new_vars_def Let_def
      split: option.splits sum.splits prod.splits if_splits)

lemma extends_parse_clause: "extends s (snd (parse_clause s c l0))"
  using parse_clause_frame [of s c l0] by (cases "parse_clause s c l0") (simp add: extends_def)

lemma extends_u_add_clause: "extends s (snd (u_add_clause s c))"
proof (cases "parse_clause s c []")
  case (Pair r s')
  then have "extends s s'" using extends_parse_clause [of s c "[]"] by simp
  with Pair show ?thesis
    by (cases r) (auto simp: u_add_clause_def intro: extends_trans extends_add_clause)
qed

lemma extends_add_clauses_loop: "extends s (snd (add_clauses_loop cs s))"
proof (induction cs arbitrary: s)
  case Nil
  show ?case by (simp add: extends_refl)
next
  case (Cons c cs)
  obtain r s' where u: "u_add_clause s c = (r, s')" by (cases "u_add_clause s c")
  then have e: "extends s s'" using extends_u_add_clause [of s c] by simp
  show ?case
  proof (cases r)
    case (Inl e')
    with u e show ?thesis by simp
  next
    case (Inr u')
    with u e Cons.IH [of s'] show ?thesis by (auto intro: extends_trans)
  qed
qed

lemma extends_array_loop: "extends s (snd (u_add_clauses_from_array_loop xs s))"
proof (induction xs s rule: u_add_clauses_from_array_loop.induct)
  case (1 self)
  show ?case by (simp add: extends_refl u_add_clauses_from_array_loop.simps)
next
  case (2 val rest self)
  show ?case
  proof (cases "array_run (val # rest) [] 0")
    case (Inl e)
    then show ?thesis by (simp add: extends_refl u_add_clauses_from_array_loop.simps)
  next
    case (Inr t)
    obtain stop lits max_var where t: "t = (stop, lits, max_var)" by (cases t)
    let ?s' = "(if lits \<noteq> [] then
               cmsat_add_clause lits
                 (if max_var \<ge> int (nVars self)
                  then cmsat_new_vars (nat (max_var - int (nVars self) + 1)) self
                  else self)
             else self)"
    have "extends self ?s'"
      by (auto intro: extends_refl extends_add_clause extends_trans [OF extends_new_vars extends_add_clause])
    moreover have "extends ?s' (snd (u_add_clauses_from_array_loop (tl stop) ?s'))"
      by (rule "2.IH" [OF Inr [unfolded t] refl refl])
    ultimately have "extends self (snd (u_add_clauses_from_array_loop (tl stop) ?s'))"
      by (rule extends_trans)
    then show ?thesis
      by (simp only: u_add_clauses_from_array_loop.simps(2) [of val rest self] Inr t sum.case prod.case)
  qed
qed


lemma extends_array: "extends s (snd (u_add_clauses_from_array s xs))"
  by (simp add: u_add_clauses_from_array_def extends_refl extends_array_loop)

lemma extends_add_clauses_array: "extends s (snd (add_clauses_array s tc isz xs))"
  by (simp add: add_clauses_array_def u_add_clauses_from_buffer_info_def extends_refl
      extends_array split: option.splits)

lemma extends_add_clauses: "extends s (snd (add_clauses s c mv))"
proof -
  let ?s1 = "(if mv > int (nVars s) then cmsat_new_vars (nat (mv - int (nVars s))) s else s)"
  have a: "extends s ?s1" by (simp add: extends_refl extends_new_vars)
  have b: "extends ?s1 (snd (add_clauses s c mv))"
    unfolding add_clauses_def Let_def
    by (cases c) (simp_all add: extends_refl extends_add_clauses_loop extends_add_clauses_array
        del: add_clauses_loop.simps)
  from a b show ?thesis by (rule extends_trans)
qed

lemma extends_xor_loop: "extends s (snd (parse_xor_clause_loop items vs pend s))"
proof (induction items arbitrary: vs pend s)
  case Nil
  show ?case by (simp add: extends_refl)
next
  case (Cons x items)
  show ?case
  proof (cases "convert_lit_to_sign_and_var x")
    case (Inl e)
    then show ?thesis by (simp add: extends_refl)
  next
    case (Inr t)
    obtain v sg p where t: "t = ((v, sg), p)" by (cases t) auto
    let ?s' = "(if v \<ge> int (nVars s)
                  then (cmsat_new_var ^^ nat (v + 1 - int (nVars s))) s
                  else s)"
    have "extends s ?s'" by (simp add: extends_refl extends_new_var_funpow)
    then show ?thesis using Inr t Cons.IH [where s = ?s']
      by (auto simp: extends_refl intro: extends_trans)
  qed
qed

lemma extends_parse_xor: "extends s (snd (parse_xor_clause s c vs))"
  using extends_xor_loop [of s "the (PyObject_GetIter c)" vs None]
  by (auto simp: parse_xor_clause_def extends_refl split: option.splits prod.splits sum.splits)

lemma extends_add_xor_clause: "extends s (snd (add_xor_clause s c rhs))"
proof (cases rhs)
  case (PyBool b)
  obtain r s' where p: "parse_xor_clause s c [] = (r, s')" by (cases "parse_xor_clause s c []")
  then have "extends s s'" using extends_parse_xor [of s c "[]"] by simp
  with p PyBool show ?thesis
    by (cases r) (auto simp: add_xor_clause_def intro: extends_trans extends_add_xor)
qed (simp_all add: add_xor_clause_def extends_refl)

lemma solve_frame:
  "solve slv s a = (r, s') \<Longrightarrow>
     nVars s' = nVars s \<and> clauses s' = clauses s \<and> xors s' = xors s"
  by (auto simp: solve_def cmsat_solve_def split: sum.splits prod.splits lbool.splits)

lemma extends_solve_call: "extends s (snd (solve slv s a))"
  using solve_frame [of slv s a] by (cases "solve slv s a") (simp add: extends_def)

lemma extends_is_satisfiable: "extends s (snd (is_satisfiable slv s))"
  by (auto simp: is_satisfiable_def cmsat_solve_def extends_def split: prod.splits lbool.splits)

lemma msolve_loop_frame:
  "msolve_loop slv mx cur vl raw sols s = (r, s') \<Longrightarrow>
     nVars s' = nVars s \<and> xors s' = xors s \<and> (\<exists>ys. clauses s' = clauses s @ ys)"
proof (induction slv mx cur vl raw sols s rule: msolve_loop.induct)
  case (1 slv max_nr cur var_lits raw solutions self)
  show ?case
  proof (cases "cur < max_nr")
    case False
    with "1.prems" show ?thesis by (simp add: msolve_loop.simps)
  next
    case True
    obtain res self1 where cs: "cmsat_solve slv [] self = (res, self1)"
      by (cases "cmsat_solve slv [] self")
    note fr = cmsat_solve_frame [OF cs]
    show ?thesis
    proof (cases res)
      case l_False
      with "1.prems" True cs fr show ?thesis by (simp add: msolve_loop.simps)
    next
      case l_Undef
      with "1.prems" True cs fr show ?thesis by (simp add: msolve_loop.simps)
    next
      case l_True
      show ?thesis
      proof (cases "if \<not> raw then get_solution self1 else get_raw_solution self1")
        case (Inl e)
        with "1.prems" True cs fr l_True show ?thesis by (simp add: msolve_loop.simps)
      next
        case (Inr solution)
        let ?s2 = "(if cur + 1 < max_nr
                     then cmsat_add_clause (ban_solution var_lits (model self1)) self1
                     else self1)"
        have eq: "msolve_loop slv max_nr (cur + 1) var_lits raw (solutions @ [solution]) ?s2 = (r, s')"
          using "1.prems" True cs l_True Inr
          by (simp add: msolve_loop.simps [of slv max_nr cur])
        have "nVars s' = nVars ?s2 \<and> xors s' = xors ?s2 \<and> (\<exists>ys. clauses s' = clauses ?s2 @ ys)"
          using "1.IH" [OF True cs [symmetric] l_True Inr eq] .
        then show ?thesis using fr by (auto simp: cmsat_add_clause_def)
      qed
    qed
  qed
qed

lemma extends_msolve_loop: "extends s (snd (msolve_loop slv mx cur vl raw sols s))"
  using msolve_loop_frame [of slv mx cur vl raw sols s]
  by (cases "msolve_loop slv mx cur vl raw sols s") (simp add: extends_def)

lemma extends_msolve_selected: "extends s (snd (msolve_selected slv s n vs raw))"
proof (cases "parse_clause s vs []")
  case (Pair r s1)
  then have e: "extends s s1" using extends_parse_clause [of s vs "[]"] by simp
  show ?thesis
  proof (cases r)
    case (Inl x)
    with Pair e show ?thesis by (simp add: msolve_selected_def)
  next
    case (Inr vl)
    with Pair e extends_msolve_loop [of s1 slv n 0 vl raw "[]"] show ?thesis
      by (auto simp: msolve_selected_def intro: extends_trans)
  qed
qed

lemma extends_exec: "extends s (exec slv s c)"
  by (cases c) (simp_all add: add_clause_def extends_u_add_clause extends_add_clauses
      extends_add_xor_clause extends_solve_call extends_is_satisfiable extends_msolve_selected
      extends_refl)

lemma extends_run: "extends s (run slv s cs)"
proof (induction cs arbitrary: s)
  case Nil
  show ?case by (simp add: run_def extends_refl)
next
  case (Cons c cs)
  have "extends s (exec slv s c)" by (rule extends_exec)
  moreover have "extends (exec slv s c) (run slv (exec slv s c) cs)" by (rule Cons.IH)
  ultimately show ?case by (simp add: run_def) (metis extends_trans run_def)
qed

subsection \<open>The literal codec\<close>

lemma INT_halves: "INT_MAX div 2 = 1073741823" "INT_MIN div 2 = - 1073741824"
  by (simp_all add: INT_MAX_def INT_MIN_def)

text \<open>
  C6, as amended. The codec rejects a non-integer with a TypeError and 0 with a ValueError;
  an integer \<open>v\<close> that fits a C long is rejected with a ValueError when
  \<open>v > INT_MAX/2\<close> or \<open>v < INT_MIN/2\<close>; and every non-zero \<open>v\<close> with
  \<open>INT_MIN/2 \<le> v \<le> INT_MAX/2\<close> decodes to the variable \<open>|v| - 1\<close> with polarity
  \<open>v < 0\<close>, which encodes back to \<open>v\<close>.
\<close>

theorem codec_contract:
  "(\<not> IS_INT x \<longrightarrow> convert_lit_to_sign_and_var x = Inl TypeError)
   \<and> convert_lit_to_sign_and_var (PyLong 0) = Inl ValueError
   \<and> (LONG_MIN \<le> v \<and> v \<le> LONG_MAX \<and> (v > INT_MAX div 2 \<or> v < INT_MIN div 2)
        \<longrightarrow> convert_lit_to_sign_and_var (PyLong v) = Inl ValueError)
   \<and> (w \<noteq> 0 \<and> INT_MIN div 2 \<le> w \<and> w \<le> INT_MAX div 2
        \<longrightarrow> convert_lit_to_sign_and_var (PyLong w) = Inr ((\<bar>w\<bar> - 1, w < 0), None)
            \<and> encode_lit (Lit (nat (\<bar>w\<bar> - 1)) (w < 0)) = w)"
proof -
  have a: "\<not> IS_INT x \<longrightarrow> convert_lit_to_sign_and_var x = Inl TypeError"
    by (simp add: convert_lit_to_sign_and_var_def)
  have b: "convert_lit_to_sign_and_var (PyLong 0) = Inl ValueError"
    by (simp add: convert_lit_to_sign_and_var_def LONG_MIN_def LONG_MAX_def)
  have c: "LONG_MIN \<le> v \<and> v \<le> LONG_MAX \<and> (v > INT_MAX div 2 \<or> v < INT_MIN div 2)
        \<longrightarrow> convert_lit_to_sign_and_var (PyLong v) = Inl ValueError"
    by (auto simp add: convert_lit_to_sign_and_var_def INT_halves)
  have d: "w \<noteq> 0 \<and> INT_MIN div 2 \<le> w \<and> w \<le> INT_MAX div 2
        \<longrightarrow> convert_lit_to_sign_and_var (PyLong w) = Inr ((\<bar>w\<bar> - 1, w < 0), None)
            \<and> encode_lit (Lit (nat (\<bar>w\<bar> - 1)) (w < 0)) = w"
    by (auto simp add: convert_lit_to_sign_and_var_def INT_halves LONG_MIN_def LONG_MAX_def
        encode_lit_def Let_def)
  from a b c d show ?thesis by blast
qed

theorem codec_contract_witness:
  "convert_lit_to_sign_and_var PyNone = Inl TypeError
   \<and> convert_lit_to_sign_and_var (PyLong 1073741824) = Inl ValueError
   \<and> convert_lit_to_sign_and_var (PyLong (- 2)) = Inr ((1, True), None)
   \<and> encode_lit (Lit 1 True) = - 2"
  using codec_contract [of PyNone 1073741824 "- 2"]
  by (simp add: INT_halves LONG_MIN_def LONG_MAX_def)

text \<open>
  The claim as stated fails at \<open>v = INT_MIN/2 = -1073741824\<close>: its magnitude exceeds
  \<open>INT_MAX/2\<close>, and the codec accepts it.
\<close>

theorem codec_magnitude_counterexample:
  "\<bar>- 1073741824 :: int\<bar> > INT_MAX div 2
   \<and> convert_lit_to_sign_and_var (PyLong (- 1073741824)) = Inr ((1073741823, True), None)"
  by (simp add: convert_lit_to_sign_and_var_def INT_halves LONG_MIN_def LONG_MAX_def)

subsection \<open>Clause parsing\<close>

lemma convert_ok:
  assumes "convert_lit_to_sign_and_var x = Inr ((v, sg), p)"
  shows "Lit (nat v) sg = decode_lit x" and "0 \<le> v" and "v = \<bar>fst (PyLong_AsLong x)\<bar> - 1"
    and "int (var (decode_lit x)) = v" and "p = snd (PyLong_AsLong x)"
  using assms
  by (auto simp: convert_lit_to_sign_and_var_def decode_lit_def Let_def
      split: if_splits prod.splits)

lemma parse_clause_loop_ok:
  "parse_clause_loop items mv0 lits0 pend0 = Inr (mv, lits, pend) \<Longrightarrow>
     lits = lits0 @ map decode_lit items
     \<and> mv = fold (\<lambda>l m. max (int (var l)) m) (map decode_lit items) mv0"
proof (induction items arbitrary: mv0 lits0 pend0)
  case Nil
  then show ?case by simp
next
  case (Cons x items)
  from Cons.prems obtain v sg p where c: "convert_lit_to_sign_and_var x = Inr ((v, sg), p)"
    by (auto split: sum.splits)
  note ok = convert_ok [OF c]
  from Cons.prems c have "parse_clause_loop items (max v mv0) (lits0 @ [Lit (nat v) sg])
      (case p of None \<Rightarrow> pend0 | Some e \<Rightarrow> Some e) = Inr (mv, lits, pend)"
    by simp
  from Cons.IH [OF this]
  have l: "lits = (lits0 @ [Lit (nat v) sg]) @ map decode_lit items"
    and m: "mv = fold (\<lambda>l m. max (int (var l)) m) (map decode_lit items) (max v mv0)"
    by simp_all
  show ?case unfolding l m by (simp add: ok(1) ok(4))
qed

lemma fold_max_ge: "(m0::int) \<le> fold (\<lambda>l m. max (int (var l)) m) ls m0"
proof (induction ls arbitrary: m0)
  case Nil
  show ?case by simp
next
  case (Cons a ls)
  have "m0 \<le> max (int (var a)) m0" by simp
  also have "\<dots> \<le> fold (\<lambda>l m. max (int (var l)) m) ls (max (int (var a)) m0)"
    by (rule Cons.IH)
  finally show ?case by simp
qed

lemma fold_max_upper: "l \<in> set ls \<Longrightarrow> int (var l) \<le> fold (\<lambda>l m. max (int (var l)) m) ls m0"
proof (induction ls arbitrary: m0)
  case Nil
  then show ?case by simp
next
  case (Cons a ls)
  show ?case
  proof (cases "l = a")
    case True
    have "max (int (var a)) m0 \<le> fold (\<lambda>l m. max (int (var l)) m) ls (max (int (var a)) m0)"
      by (rule fold_max_ge)
    with True show ?thesis by simp
  next
    case False
    with Cons show ?thesis by simp
  qed
qed

lemma fold_max_cases:
  "fold (\<lambda>l m. max (int (var l)) m) ls m0 = m0
   \<or> (\<exists>l \<in> set ls. fold (\<lambda>l m. max (int (var l)) m) ls m0 = int (var l))"
proof (induction ls arbitrary: m0)
  case Nil
  show ?case by simp
next
  case (Cons a ls)
  from Cons.IH [of "max (int (var a)) m0"] show ?case
    by (auto simp: max_def split: if_splits)
qed

lemma fold_max_is_max:
  assumes "l \<in> set ls" and "\<forall>l' \<in> set ls. var l' \<le> var l"
  shows "fold (\<lambda>l m. max (int (var l)) m) ls 0 = int (var l)"
proof -
  let ?f = "fold (\<lambda>l m. max (int (var l)) m) ls 0"
  have ge: "int (var l) \<le> ?f" using assms(1) by (rule fold_max_upper)
  from fold_max_cases [of ls 0] have "?f \<le> int (var l)"
  proof
    assume "?f = 0"
    then show ?thesis by simp
  next
    assume "\<exists>l' \<in> set ls. ?f = int (var l')"
    then obtain l' where "l' \<in> set ls" and "?f = int (var l')" by blast
    with assms(2) show ?thesis by simp
  qed
  with ge show ?thesis by simp
qed

lemma parse_clause_loop_pend:
  "parse_clause_loop items mv0 lits0 pend0 = Inr (mv, lits, None) \<Longrightarrow>
     pend0 = None \<and> (\<forall>x \<in> set items. snd (PyLong_AsLong x) = None)"
proof (induction items arbitrary: mv0 lits0 pend0)
  case Nil
  then show ?case by simp
next
  case (Cons x items)
  from Cons.prems obtain v sg p where c: "convert_lit_to_sign_and_var x = Inr ((v, sg), p)"
    by (auto split: sum.splits)
  from Cons.prems c have "parse_clause_loop items (max v mv0) (lits0 @ [Lit (nat v) sg])
      (case p of None \<Rightarrow> pend0 | Some e \<Rightarrow> Some e) = Inr (mv, lits, None)"
    by simp
  from Cons.IH [OF this] convert_ok(5) [OF c] show ?case
    by (auto split: option.splits)
qed

lemma parse_clause_ok:
  assumes "parse_clause self c [] = (Inr lits, s1)"
  shows "\<exists>items. PyObject_GetIter c = Some items \<and> lits = map decode_lit items
     \<and> (\<forall>x \<in> set items. snd (PyLong_AsLong x) = None)
     \<and> s1 = (if lits \<noteq> [] \<and> max_var_of lits \<ge> int (nVars self)
             then cmsat_new_vars (nat (max_var_of lits - int (nVars self) + 1)) self
             else self)"
proof -
  from assms obtain items where g: "PyObject_GetIter c = Some items"
    by (auto simp: parse_clause_def split: option.splits)
  from assms g obtain mv where l: "parse_clause_loop items 0 [] None = Inr (mv, lits, None)"
    by (auto simp: parse_clause_def Let_def split: sum.splits option.splits)
  from parse_clause_loop_ok [OF l] have lits: "lits = map decode_lit items"
    and mv: "mv = max_var_of lits"
    by (simp_all add: max_var_of_def)
  from assms g l have "s1 = (if lits \<noteq> [] \<and> mv \<ge> int (nVars self)
             then cmsat_new_vars (nat (mv - int (nVars self) + 1)) self
             else self)"
    by (simp add: parse_clause_def Let_def)
  with g lits mv parse_clause_loop_pend [OF l] show ?thesis by simp
qed

lemma max_var_of_upper: "l \<in> set ls \<Longrightarrow> int (var l) \<le> max_var_of ls"
  unfolding max_var_of_def by (rule fold_max_upper)

lemma parse_clause_covers:
  assumes "parse_clause self c [] = (Inr lits, s1)" and "l \<in> set lits"
  shows "var l < nVars s1"
proof -
  from parse_clause_ok [OF assms(1)]
  have s1: "s1 = (if lits \<noteq> [] \<and> max_var_of lits \<ge> int (nVars self)
             then cmsat_new_vars (nat (max_var_of lits - int (nVars self) + 1)) self
             else self)" by blast
  from assms(2) have ne: "lits \<noteq> []" by auto
  from max_var_of_upper [OF assms(2)] show ?thesis
    unfolding s1 using ne by (auto simp: cmsat_new_vars_def)
qed

subsection \<open>The variable space\<close>

text \<open>
  C7. The variable space never shrinks over any sequence of calls (failing calls included).
  When \<open>add_clause\<close> succeeds on a clause with items \<open>items\<close>, the decoded clause is
  committed; every integer \<open>v\<close> of the clause has \<open>|v| \<le> nb_vars()\<close> afterwards; when the
  largest referenced index \<open>var l\<close> is not below the previous size, the space grows by one
  call of \<open>new_vars\<close> with exactly the deficit \<open>var l - nVars + 1\<close>; and when every
  referenced index is below the previous size, the size is unchanged.
\<close>

theorem variable_space_growth:
  "nVars self \<le> nVars (run slv self cs)
   \<and> (add_clause self clause = (Inr (), self') \<and> PyObject_GetIter clause = Some items \<longrightarrow>
        clauses self' = clauses self @ [map decode_lit items]
        \<and> (\<forall>v. PyLong v \<in> set items \<longrightarrow> \<bar>v\<bar> \<le> int (nVars self'))
        \<and> (\<forall>l \<in> set (map decode_lit items).
              nVars self \<le> var l \<and> (\<forall>l' \<in> set (map decode_lit items). var l' \<le> var l) \<longrightarrow>
              self' = cmsat_add_clause (map decode_lit items)
                        (cmsat_new_vars (var l - nVars self + 1) self)
              \<and> nVars self' = nVars self + (var l - nVars self + 1))
        \<and> ((\<forall>l \<in> set (map decode_lit items). var l < nVars self) \<longrightarrow> nVars self' = nVars self))"
proof (rule conjI, goal_cases)
  case 1
  show ?case
    using extends_run [of self slv cs] by (simp add: extends_def)
next
  case 2
  show ?case
  proof (rule impI, intro conjI)
  assume a: "add_clause self clause = (Inr (), self') \<and> PyObject_GetIter clause = Some items"
  then obtain lits s1 where p: "parse_clause self clause [] = (Inr lits, s1)"
    and s': "self' = cmsat_add_clause lits s1"
    by (auto simp: add_clause_def u_add_clause_def split: prod.splits sum.splits)
  from parse_clause_ok [OF p] a have lits: "lits = map decode_lit items"
    and pend: "\<forall>x \<in> set items. snd (PyLong_AsLong x) = None"
    and s1: "s1 = (if lits \<noteq> [] \<and> max_var_of lits \<ge> int (nVars self)
             then cmsat_new_vars (nat (max_var_of lits - int (nVars self) + 1)) self
             else self)"
    by auto
  show "clauses self' = clauses self @ [map decode_lit items]"
    using s' parse_clause_frame [OF p] lits by (simp add: cmsat_add_clause_def)
  show "\<forall>v. PyLong v \<in> set items \<longrightarrow> \<bar>v\<bar> \<le> int (nVars self')"
  proof (intro allI impI)
    fix v assume v: "PyLong v \<in> set items"
    with pend have r: "LONG_MIN \<le> v \<and> v \<le> LONG_MAX"
      by (auto split: if_splits)
    from v lits have "decode_lit (PyLong v) \<in> set lits" by simp
    from parse_clause_covers [OF p this] have "var (decode_lit (PyLong v)) < nVars self'"
      by (simp add: s' cmsat_add_clause_def)
    then show "\<bar>v\<bar> \<le> int (nVars self')"
      using r by (simp add: decode_lit_def Let_def)
  qed
  show "\<forall>l \<in> set (map decode_lit items).
              nVars self \<le> var l \<and> (\<forall>l' \<in> set (map decode_lit items). var l' \<le> var l) \<longrightarrow>
              self' = cmsat_add_clause (map decode_lit items)
                        (cmsat_new_vars (var l - nVars self + 1) self)
              \<and> nVars self' = nVars self + (var l - nVars self + 1)"
  proof (intro ballI impI)
    fix l assume l: "l \<in> set (map decode_lit items)"
      and m: "nVars self \<le> var l \<and> (\<forall>l' \<in> set (map decode_lit items). var l' \<le> var l)"
    from l m have mv: "max_var_of lits = int (var l)"
      unfolding max_var_of_def lits by (intro fold_max_is_max) auto
    from l lits have ne: "lits \<noteq> []" by auto
    from m mv ne have "s1 = cmsat_new_vars (var l - nVars self + 1) self"
      unfolding s1 by (simp add: nat_diff_distrib' nat_add_distrib int_ops)
    then show "self' = cmsat_add_clause (map decode_lit items)
                        (cmsat_new_vars (var l - nVars self + 1) self)
              \<and> nVars self' = nVars self + (var l - nVars self + 1)"
      using s' lits by (simp add: cmsat_add_clause_def cmsat_new_vars_def)
  qed
  show "(\<forall>l \<in> set (map decode_lit items). var l < nVars self) \<longrightarrow> nVars self' = nVars self"
  proof
    assume b: "\<forall>l \<in> set (map decode_lit items). var l < nVars self"
    have "\<not> (lits \<noteq> [] \<and> max_var_of lits \<ge> int (nVars self))"
    proof
      assume c: "lits \<noteq> [] \<and> max_var_of lits \<ge> int (nVars self)"
      from fold_max_cases [of lits 0] c b lits show False
        unfolding max_var_of_def by auto
    qed
    then have "s1 = self" unfolding s1 by (simp only: if_False)
    then show "nVars self' = nVars self"
      using s' by (simp add: cmsat_add_clause_def)
  qed
  qed
qed

theorem variable_space_growth_witness:
  "nVars \<lparr>nVars = 1, clauses = [], xors = [], model = []\<rparr>
     \<le> nVars (run ref_search \<lparr>nVars = 1, clauses = [], xors = [], model = []\<rparr>
          [Call_add_clause (PyList [PyLong 2, PyLong (- 4)]), Call_solve None])
   \<and> add_clause \<lparr>nVars = 1, clauses = [], xors = [], model = []\<rparr> (PyList [PyLong 2, PyLong (- 4)])
       = (Inr (), \<lparr>nVars = 4, clauses = [[Lit 1 False, Lit 3 True]], xors = [], model = []\<rparr>)
   \<and> cmsat_add_clause [Lit 1 False, Lit 3 True]
         (cmsat_new_vars (3 - 1 + 1) \<lparr>nVars = 1, clauses = [], xors = [], model = []\<rparr>)
       = \<lparr>nVars = 4, clauses = [[Lit 1 False, Lit 3 True]], xors = [], model = []\<rparr>"
  using variable_space_growth [of "\<lparr>nVars = 1, clauses = [], xors = [], model = []\<rparr>" ref_search
      "[Call_add_clause (PyList [PyLong 2, PyLong (- 4)]), Call_solve None]"
      "PyList [PyLong 2, PyLong (- 4)]"
      "\<lparr>nVars = 4, clauses = [[Lit 1 False, Lit 3 True]], xors = [], model = []\<rparr>"
      "[PyLong 2, PyLong (- 4)]"]
  by (simp add: add_clause_def u_add_clause_def parse_clause_def convert_lit_to_sign_and_var_def
      INT_halves LONG_MIN_def LONG_MAX_def cmsat_new_vars_def cmsat_add_clause_def decode_lit_def)

subsection \<open>The reference search\<close>

lemma all_models_length: "m \<in> set (all_models n) \<Longrightarrow> length m = n"
  by (induction n arbitrary: m) auto

lemma ref_search_sound: "engine_sound ref_search"
  unfolding engine_sound_def
proof (intro allI impI)
  fix n cls xs as m
  assume a: "ref_search n cls xs as = (l_True, m)"
  let ?P = "\<lambda>m. list_all (list_ex (lit_true m)) cls \<and> list_all (xor_holds m) xs
                      \<and> list_all (lit_true m) as"
  from a have f: "find ?P (all_models n) = Some m"
    by (auto simp: ref_search_def split: option.splits)
  then have "m \<in> set (all_models n)" and "?P m"
    by (auto simp: find_Some_iff)
  then show "length m = n \<and> (\<forall>c \<in> set cls. \<exists>l \<in> set c. lit_true m l)"
    by (auto simp: all_models_length list_all_iff list_ex_iff)
qed

lemma ref_search_decides: "engine_decides ref_search"
  by (simp add: engine_decides_def ref_search_def split: option.splits)

subsection \<open>The empty clause\<close>

text \<open>
  C4. \<open>add_clause\<close> on an empty sequence commits the empty clause, and after that, whatever
  calls follow, \<open>solve()\<close> without assumptions answers \<open>(False, None)\<close>, for an engine
  that is sound and never answers unknown.
\<close>

theorem empty_clause_unsat:
  "add_clause self (PyList []) = (Inr (), cmsat_add_clause [] self)
   \<and> (engine_sound slv \<and> engine_decides slv \<longrightarrow>
        fst (solve slv (run slv (snd (add_clause self (PyList []))) cs) None)
          = Inr (PyBool False, None))"
proof (rule conjI)
  show a: "add_clause self (PyList []) = (Inr (), cmsat_add_clause [] self)"
    by (simp add: add_clause_def u_add_clause_def parse_clause_def)
  show "engine_sound slv \<and> engine_decides slv \<longrightarrow>
        fst (solve slv (run slv (snd (add_clause self (PyList []))) cs) None)
          = Inr (PyBool False, None)"
  proof
    assume e: "engine_sound slv \<and> engine_decides slv"
    let ?s = "run slv (snd (add_clause self (PyList []))) cs"
    have "extends (cmsat_add_clause [] self) ?s"
      unfolding a snd_conv by (rule extends_run)
    then have emp: "[] \<in> set (clauses ?s)"
      by (auto simp: extends_def cmsat_add_clause_def)
    obtain res m where r: "slv (nVars ?s) (clauses ?s) (xors ?s) [] = (res, m)"
      by (cases "slv (nVars ?s) (clauses ?s) (xors ?s) []")
    have "res \<noteq> l_True"
    proof
      assume "res = l_True"
      with r e have "\<forall>c \<in> set (clauses ?s). \<exists>l \<in> set c. lit_true m l"
        unfolding engine_sound_def by blast
      with emp show False by auto
    qed
    moreover have "res \<noteq> l_Undef"
      using e r unfolding engine_decides_def by (metis fst_conv)
    ultimately have "res = l_False" by (cases res) auto
    with r show "fst (solve slv ?s None) = Inr (PyBool False, None)"
      by (simp add: solve_def cmsat_solve_def)
  qed
qed

theorem empty_clause_unsat_witness:
  "engine_sound ref_search \<and> engine_decides ref_search
   \<and> add_clause \<lparr>nVars = 1, clauses = [], xors = [], model = []\<rparr> (PyList [])
       = (Inr (), \<lparr>nVars = 1, clauses = [[]], xors = [], model = []\<rparr>)
   \<and> fst (solve ref_search
        (run ref_search (snd (add_clause \<lparr>nVars = 1, clauses = [], xors = [], model = []\<rparr> (PyList [])))
           [Call_add_clause (PyList [PyLong 1]), Call_solve (Some (PyList [PyLong 1]))]) None)
       = Inr (PyBool False, None)"
proof -
  note t = empty_clause_unsat [of "\<lparr>nVars = 1, clauses = [], xors = [], model = []\<rparr>" ref_search
      "[Call_add_clause (PyList [PyLong 1]), Call_solve (Some (PyList [PyLong 1]))]"]
  have s: "engine_sound ref_search \<and> engine_decides ref_search"
    using ref_search_sound ref_search_decides by simp
  from t have a: "add_clause \<lparr>nVars = 1, clauses = [], xors = [], model = []\<rparr> (PyList [])
       = (Inr (), \<lparr>nVars = 1, clauses = [[]], xors = [], model = []\<rparr>)"
    by (simp add: cmsat_add_clause_def)
  from t s have "fst (solve ref_search
        (run ref_search (snd (add_clause \<lparr>nVars = 1, clauses = [], xors = [], model = []\<rparr> (PyList [])))
           [Call_add_clause (PyList [PyLong 1]), Call_solve (Some (PyList [PyLong 1]))]) None)
       = Inr (PyBool False, None)"
    by blast
  with s a show ?thesis by blast
qed

subsection \<open>The two renderings of a model\<close>

lemma raw_slot:
  assumes "get_raw_solution cmsat = Inr raw" and "v < nVars cmsat"
  shows "raw ! v = (if model cmsat ! v \<noteq> l_Undef
                  then Some (PyLong ((int v + 1) * (if model cmsat ! v = l_True then 1 else - 1)))
                  else None)"
    and "length raw = nVars cmsat"
  using assms by (auto simp: get_raw_solution_def Let_def split: if_splits)

lemma dense_slot:
  assumes "get_solution cmsat = Inr dense" and "1 \<le> i" and "i \<le> nVars cmsat"
  shows "dense ! i = (case model cmsat ! (i - 1) of
                    l_True \<Rightarrow> Some (PyBool True)
                  | l_False \<Rightarrow> Some (PyBool False)
                  | l_Undef \<Rightarrow> Some PyNone)"
proof -
  from assms(1) have d: "dense = Some PyNone #
        map (\<lambda>i. case model cmsat ! i of
                    l_True \<Rightarrow> Some (PyBool True)
                  | l_False \<Rightarrow> Some (PyBool False)
                  | l_Undef \<Rightarrow> Some PyNone) [0..<nVars cmsat]"
    by (auto simp: get_solution_def Let_def split: if_splits)
  from assms(2,3) obtain j where j: "i = Suc j" "j < nVars cmsat" by (cases i) auto
  show ?thesis unfolding d j(1) using j(2) by simp
qed

text \<open>
  C2. The raw rendering at a model with an unassigned variable: \<^verbatim>\<open>get_raw_solution\<close>
  allocates a tuple of \<open>nVars\<close> slots and sets the slot of a variable only when the
  variable is assigned, so the unassigned variable 2 keeps a slot of the tuple, left NULL,
  between the literals \<open>1\<close> and \<open>-3\<close>; the tuple has three slots, not two. The dense
  rendering of the same model holds \<open>None\<close> for that variable.
\<close>

theorem raw_solution_null_slot:
  "get_raw_solution \<lparr>nVars = 3, clauses = [], xors = [], model = [l_True, l_Undef, l_False]\<rparr>
     = Inr [Some (PyLong 1), None, Some (PyLong (- 3))]
   \<and> get_solution \<lparr>nVars = 3, clauses = [], xors = [], model = [l_True, l_Undef, l_False]\<rparr>
     = Inr [Some PyNone, Some (PyBool True), Some PyNone, Some (PyBool False)]"
  by (simp add: get_solution_def get_raw_solution_def Let_def upt_rec)

subsection \<open>The flat-buffer form\<close>

lemma array_run_run:
  assumes "0 \<notin> set r" and "\<forall>v \<in> set r. INT_MIN div 2 \<le> v \<and> v \<le> INT_MAX div 2"
  shows "\<exists>mv'. array_run (r @ 0 # rest) lits mv = Inr (0 # rest, lits @ map lit_of_int r, mv')
     \<and> mv \<le> mv' \<and> (\<forall>v \<in> set r. \<bar>v\<bar> - 1 \<le> mv')"
  using assms
proof (induction r arbitrary: lits mv)
  case Nil
  show ?case by simp
next
  case (Cons a r)
  from Cons.prems have a: "a \<noteq> 0" "\<not> (a > INT_MAX div 2 \<or> a < INT_MIN div 2)"
    and r: "0 \<notin> set r" "\<forall>v \<in> set r. INT_MIN div 2 \<le> v \<and> v \<le> INT_MAX div 2"
    by auto
  from Cons.IH [OF r, of "lits @ [Lit (nat (\<bar>a\<bar> - 1)) (a < 0)]" "max (\<bar>a\<bar> - 1) mv"]
  obtain mv' where
    "array_run (r @ 0 # rest) (lits @ [Lit (nat (\<bar>a\<bar> - 1)) (a < 0)]) (max (\<bar>a\<bar> - 1) mv)
      = Inr (0 # rest, (lits @ [Lit (nat (\<bar>a\<bar> - 1)) (a < 0)]) @ map lit_of_int r, mv')"
    and "max (\<bar>a\<bar> - 1) mv \<le> mv'" and "\<forall>v \<in> set r. \<bar>v\<bar> - 1 \<le> mv'"
    by blast
  with a show ?case
    by (intro exI [of _ mv']) (auto simp: lit_of_int_def)
qed

lemma array_loop_unfold:
  "xs \<noteq> [] \<Longrightarrow> u_add_clauses_from_array_loop xs self =
     (case array_run xs [] 0 of
        Inl e \<Rightarrow> (Inl e, self)
      | Inr (stop, lits, max_var) \<Rightarrow>
          u_add_clauses_from_array_loop (tl stop)
            (if lits \<noteq> [] then
               cmsat_add_clause lits
                 (if max_var \<ge> int (nVars self)
                  then cmsat_new_vars (nat (max_var - int (nVars self) + 1)) self
                  else self)
             else self))"
  by (cases xs) (simp_all add: u_add_clauses_from_array_loop.simps)

lemma array_loop_runs:
  assumes "\<forall>r \<in> set rs. 0 \<notin> set r \<and> (\<forall>v \<in> set r. INT_MIN div 2 \<le> v \<and> v \<le> INT_MAX div 2)"
  shows "\<exists>s'. u_add_clauses_from_array_loop (concat (map (\<lambda>r. r @ [0]) rs)) s = (Inr (), s')
     \<and> clauses s' = clauses s @ map (map lit_of_int) (filter (\<lambda>r. r \<noteq> []) rs)
     \<and> (\<forall>r \<in> set rs. \<forall>v \<in> set r. \<bar>v\<bar> \<le> int (nVars s'))"
  using assms
proof (induction rs arbitrary: s)
  case Nil
  show ?case by (simp add: u_add_clauses_from_array_loop.simps)
next
  case (Cons r rs)
  let ?rest = "concat (map (\<lambda>r. r @ [0]) rs)"
  from Cons.prems have r: "0 \<notin> set r" "\<forall>v \<in> set r. INT_MIN div 2 \<le> v \<and> v \<le> INT_MAX div 2"
    and rs: "\<forall>r \<in> set rs. 0 \<notin> set r \<and> (\<forall>v \<in> set r. INT_MIN div 2 \<le> v \<and> v \<le> INT_MAX div 2)"
    by auto
  from array_run_run [OF r, of ?rest "[]" 0] obtain mv where
    run: "array_run (r @ 0 # ?rest) [] 0 = Inr (0 # ?rest, map lit_of_int r, mv)"
    and mv: "\<forall>v \<in> set r. \<bar>v\<bar> - 1 \<le> mv"
    by auto
  let ?s1 = "(if map lit_of_int r \<noteq> [] then
               cmsat_add_clause (map lit_of_int r)
                 (if mv \<ge> int (nVars s)
                  then cmsat_new_vars (nat (mv - int (nVars s) + 1)) s
                  else s)
             else s)"
  have step: "u_add_clauses_from_array_loop (concat (map (\<lambda>r. r @ [0]) (r # rs))) s
      = u_add_clauses_from_array_loop ?rest ?s1"
    using array_loop_unfold [of "r @ 0 # ?rest" s] run by simp
  from Cons.IH [OF rs, of ?s1] obtain s' where
    l: "u_add_clauses_from_array_loop ?rest ?s1 = (Inr (), s')"
    and c: "clauses s' = clauses ?s1 @ map (map lit_of_int) (filter (\<lambda>r. r \<noteq> []) rs)"
    and n: "\<forall>r \<in> set rs. \<forall>v \<in> set r. \<bar>v\<bar> \<le> int (nVars s')"
    by blast
  have c1: "clauses ?s1 = clauses s @ (if r \<noteq> [] then [map lit_of_int r] else [])"
    by (simp add: cmsat_add_clause_def cmsat_new_vars_def)
  have n1: "\<forall>v \<in> set r. \<bar>v\<bar> \<le> int (nVars ?s1)"
    using mv by (auto simp: cmsat_add_clause_def cmsat_new_vars_def)
  have "nVars ?s1 \<le> nVars s'"
    using extends_array_loop [of ?s1 ?rest] l by (simp add: extends_def)
  with n1 have n2: "\<forall>v \<in> set r. \<bar>v\<bar> \<le> int (nVars s')" by fastforce
  show ?case
    unfolding step using l c c1 n n2 by auto
qed

lemma last_concat_runs:
  "rs \<noteq> [] \<Longrightarrow> last (concat (map (\<lambda>r. r @ [0::int]) rs)) = 0"
  by (induction rs) auto

text \<open>
  C3. A zero-terminated buffer is the concatenation of its runs, each followed by the
  separator 0. For runs of literals in the accepted range, flat-buffer ingestion succeeds
  and commits exactly the non-empty runs, one clause per run and in order; empty runs
  commit nothing. The buffer \<open>[1, -2, 0, 3, 0]\<close> commits the clauses \<open>{1, -2}\<close> and \<open>{3}\<close>.
  A non-empty buffer whose last element is not 0 fails with a ValueError and leaves the
  engine as it was. \<open>add_clauses\<close> on an array of typecode \<open>i\<close> is this ingestion.
\<close>

theorem flat_buffer_ingestion:
  "((\<forall>r \<in> set rs. 0 \<notin> set r \<and> (\<forall>v \<in> set r. INT_MIN div 2 \<le> v \<and> v \<le> INT_MAX div 2)) \<longrightarrow>
      fst (u_add_clauses_from_array self (concat (map (\<lambda>r. r @ [0]) rs))) = Inr ()
      \<and> clauses (snd (u_add_clauses_from_array self (concat (map (\<lambda>r. r @ [0]) rs))))
          = clauses self @ map (map lit_of_int) (filter (\<lambda>r. r \<noteq> []) rs))
   \<and> u_add_clauses_from_array self (replicate n 0) = (Inr (), self)
   \<and> fst (u_add_clauses_from_array self [1, - 2, 0, 3, 0]) = Inr ()
   \<and> clauses (snd (u_add_clauses_from_array self [1, - 2, 0, 3, 0]))
        = clauses self @ [[Lit 0 False, Lit 1 True], [Lit 2 False]]
   \<and> (array \<noteq> [] \<and> last array \<noteq> 0 \<longrightarrow>
        u_add_clauses_from_array self array = (Inl ValueError, self))
   \<and> add_clauses self (PyArray ''i'' 4 array) 0 = u_add_clauses_from_array self array"
proof -
  have genl: "u_add_clauses_from_array s (concat (map (\<lambda>r. r @ [0]) rs))
          = u_add_clauses_from_array_loop (concat (map (\<lambda>r. r @ [0]) rs)) s" for rs s
  proof (cases "rs = []")
    case True
    then show ?thesis
      by (simp add: u_add_clauses_from_array_def u_add_clauses_from_array_loop.simps)
  next
    case False
    let ?b = "concat (map (\<lambda>r. r @ [0]) rs)"
    from False have ne: "?b \<noteq> []" by (cases rs) auto
    with last_concat_runs [OF False] have z: "?b ! (length ?b - 1) = 0"
      by (simp add: last_conv_nth)
    from ne z show ?thesis
      by (simp add: u_add_clauses_from_array_def)
  qed
  have gen: "fst (u_add_clauses_from_array s (concat (map (\<lambda>r. r @ [0]) rs))) = Inr ()
      \<and> clauses (snd (u_add_clauses_from_array s (concat (map (\<lambda>r. r @ [0]) rs))))
          = clauses s @ map (map lit_of_int) (filter (\<lambda>r. r \<noteq> []) rs)"
    if ok: "\<forall>r \<in> set rs. 0 \<notin> set r \<and> (\<forall>v \<in> set r. INT_MIN div 2 \<le> v \<and> v \<le> INT_MAX div 2)"
    for rs s
    using array_loop_runs [OF ok, of s] unfolding genl by auto
  have a: "(\<forall>r \<in> set rs. 0 \<notin> set r \<and> (\<forall>v \<in> set r. INT_MIN div 2 \<le> v \<and> v \<le> INT_MAX div 2)) \<longrightarrow>
      fst (u_add_clauses_from_array self (concat (map (\<lambda>r. r @ [0]) rs))) = Inr ()
      \<and> clauses (snd (u_add_clauses_from_array self (concat (map (\<lambda>r. r @ [0]) rs))))
          = clauses self @ map (map lit_of_int) (filter (\<lambda>r. r \<noteq> []) rs)"
    using gen [of rs self] by blast
  have b: "u_add_clauses_from_array self (replicate n 0) = (Inr (), self)"
  proof -
    have c: "concat (map (\<lambda>r. r @ [0]) (replicate n [])) = replicate n (0::int)"
      by (induction n) simp_all
    have "\<exists>s'. u_add_clauses_from_array_loop (replicate n 0) s = (Inr (), s') \<and> s' = s" for s
    proof (induction n)
      case 0
      show ?case by (simp add: u_add_clauses_from_array_loop.simps)
    next
      case (Suc n)
      then show ?case by (simp add: u_add_clauses_from_array_loop.simps)
    qed
    then have "u_add_clauses_from_array_loop (replicate n 0) self = (Inr (), self)" by simp
    moreover have "u_add_clauses_from_array self (replicate n 0)
        = u_add_clauses_from_array_loop (replicate n 0) self"
      using genl [of self "replicate n []"] unfolding c by simp
    ultimately show ?thesis by simp
  qed
  have ex: "fst (u_add_clauses_from_array self [1, - 2, 0, 3, 0]) = Inr ()
     \<and> clauses (snd (u_add_clauses_from_array self [1, - 2, 0, 3, 0]))
        = clauses self @ [[Lit 0 False, Lit 1 True], [Lit 2 False]]"
    using gen [of "[[1, - 2], [3]]" self] by (simp add: INT_halves lit_of_int_def)
  have d: "array \<noteq> [] \<and> last array \<noteq> 0 \<longrightarrow>
        u_add_clauses_from_array self array = (Inl ValueError, self)"
    by (auto simp: u_add_clauses_from_array_def last_conv_nth)
  have e: "add_clauses self (PyArray ''i'' 4 array) 0 = u_add_clauses_from_array self array"
    by (simp add: add_clauses_def add_clauses_array_def u_check_array_typecode_def
        u_add_clauses_from_buffer_info_def)
  from a b ex d e show ?thesis by blast
qed

theorem flat_buffer_ingestion_witness:
  "u_add_clauses_from_array \<lparr>nVars = 0, clauses = [], xors = [], model = []\<rparr>
       (concat (map (\<lambda>r. r @ [0]) [[2, - 1], [], [3]]))
     = (Inr (), \<lparr>nVars = 3, clauses = [[Lit 1 False, Lit 0 True], [Lit 2 False]], xors = [],
          model = []\<rparr>)
   \<and> map (map lit_of_int) (filter (\<lambda>r. r \<noteq> []) [[2, - 1], [], [3]])
     = [[Lit 1 False, Lit 0 True], [Lit 2 False]]
   \<and> u_add_clauses_from_array \<lparr>nVars = 0, clauses = [], xors = [], model = []\<rparr> [1, - 2, 3]
     = (Inl ValueError, \<lparr>nVars = 0, clauses = [], xors = [], model = []\<rparr>)"
  using flat_buffer_ingestion [of "[[2, - 1], [], [3]]"
      "\<lparr>nVars = 0, clauses = [], xors = [], model = []\<rparr>" 0 "[1, - 2, 3]"]
  by (simp add: u_add_clauses_from_array_def u_add_clauses_from_array_loop.simps INT_halves
      lit_of_int_def cmsat_add_clause_def cmsat_new_vars_def)

subsection \<open>Solving under assumptions\<close>

lemma convert_int_error:
  "IS_INT y \<Longrightarrow> convert_lit_to_sign_and_var y = Inl e \<Longrightarrow> e = ValueError"
  by (auto simp: convert_lit_to_sign_and_var_def split: prod.splits if_splits)

lemma parse_assumption_loop_unknown:
  assumes "\<forall>y \<in> set pre. IS_INT y"
    and "convert_lit_to_sign_and_var x = Inr ((v, sg), p)" and "v \<ge> int (nVars cmsat)"
  shows "parse_assumption_loop (pre @ x # post) cmsat lits pend = Inl ValueError"
  using assms(1)
proof (induction pre arbitrary: lits pend)
  case Nil
  from assms(2,3) show ?case by simp
next
  case (Cons y pre)
  then have y: "IS_INT y" and pre: "\<forall>y \<in> set pre. IS_INT y" by simp_all
  show ?case
  proof (cases "convert_lit_to_sign_and_var y")
    case (Inl e)
    with convert_int_error [OF y Inl] show ?thesis by simp
  next
    case (Inr t)
    obtain v' sg' p' where t: "t = ((v', sg'), p')" by (cases t) auto
    show ?thesis using Inr t Cons.IH [OF pre] by simp
  qed
qed

lemma solve_state: "\<exists>m. snd (solve slv self a) = self\<lparr>model := m\<rparr>"
proof (cases "case a of None \<Rightarrow> Inr [] | Some a \<Rightarrow> parse_assumption_lits a self []")
  case (Inl e)
  then have "snd (solve slv self a) = self\<lparr>model := model self\<rparr>"
    by (simp add: solve_def)
  then show ?thesis by blast
next
  case (Inr ls)
  obtain res m where r: "slv (nVars self) (clauses self) (xors self) ls = (res, m)"
    by (cases "slv (nVars self) (clauses self) (xors self) ls")
  with Inr have "snd (solve slv self a) = self\<lparr>model := m\<rparr>"
    by (cases res) (simp_all add: solve_def cmsat_solve_def split: sum.splits)
  then show ?thesis by blast
qed

lemma solve_ignores_model: "solve slv (self\<lparr>model := m\<rparr>) None = solve slv self None"
  by (simp add: solve_def cmsat_solve_def get_solution_def Let_def
      split: prod.splits lbool.splits)

text \<open>
  C5. When the assumptions are integers up to an item that decodes to a variable index
  not below the variable-space size, \<open>solve\<close> fails with a ValueError and leaves the engine
  untouched. No call of \<open>solve\<close>, with or without assumptions, failing or not, changes the
  variable space, the clauses or the XOR clauses. A later \<open>solve()\<close> without assumptions
  returns the same result and the same engine state as if the earlier call had not been made.
\<close>

theorem assumptions_contract:
  "((\<forall>y \<in> set pre. IS_INT y) \<and> convert_lit_to_sign_and_var x = Inr ((v, sg), p)
      \<and> v \<ge> int (nVars self) \<longrightarrow>
      solve slv self (Some (PyList (pre @ x # post))) = (Inl ValueError, self))
   \<and> nVars (snd (solve slv self a)) = nVars self
   \<and> clauses (snd (solve slv self a)) = clauses self
   \<and> xors (snd (solve slv self a)) = xors self
   \<and> solve slv (snd (solve slv self a)) None = solve slv self None"
proof -
  have a: "(\<forall>y \<in> set pre. IS_INT y) \<and> convert_lit_to_sign_and_var x = Inr ((v, sg), p)
      \<and> v \<ge> int (nVars self) \<longrightarrow>
      solve slv self (Some (PyList (pre @ x # post))) = (Inl ValueError, self)"
  proof
    assume h: "(\<forall>y \<in> set pre. IS_INT y) \<and> convert_lit_to_sign_and_var x = Inr ((v, sg), p)
      \<and> v \<ge> int (nVars self)"
    then have "parse_assumption_loop (pre @ x # post) self [] None = Inl ValueError"
      by (intro parse_assumption_loop_unknown) auto
    then show "solve slv self (Some (PyList (pre @ x # post))) = (Inl ValueError, self)"
      by (simp add: solve_def parse_assumption_lits_def)
  qed
  obtain r s' where s: "solve slv self a = (r, s')" by (cases "solve slv self a")
  from solve_frame [OF s] s
  have b: "nVars (snd (solve slv self a)) = nVars self"
    and c: "clauses (snd (solve slv self a)) = clauses self"
    and d: "xors (snd (solve slv self a)) = xors self"
    by simp_all
  obtain m where "snd (solve slv self a) = self\<lparr>model := m\<rparr>"
    using solve_state [of slv self a] by blast
  then have e: "solve slv (snd (solve slv self a)) None = solve slv self None"
    by (simp add: solve_ignores_model)
  from a b c d e show ?thesis by blast
qed

theorem assumptions_contract_witness:
  "solve ref_search
      \<lparr>nVars = 3, clauses = [[Lit 0 False], [Lit 1 True], [Lit 2 False],
          [Lit 0 True, Lit 1 False, Lit 2 False]], xors = [], model = []\<rparr>
      (Some (PyList [PyLong (- 3), PyLong 5]))
     = (Inl ValueError,
        \<lparr>nVars = 3, clauses = [[Lit 0 False], [Lit 1 True], [Lit 2 False],
          [Lit 0 True, Lit 1 False, Lit 2 False]], xors = [], model = []\<rparr>)
   \<and> fst (solve ref_search
      \<lparr>nVars = 3, clauses = [[Lit 0 False], [Lit 1 True], [Lit 2 False],
          [Lit 0 True, Lit 1 False, Lit 2 False]], xors = [], model = []\<rparr>
      (Some (PyList [PyLong (- 3)])))
     = Inr (PyBool False, None)
   \<and> fst (solve ref_search (snd (solve ref_search
      \<lparr>nVars = 3, clauses = [[Lit 0 False], [Lit 1 True], [Lit 2 False],
          [Lit 0 True, Lit 1 False, Lit 2 False]], xors = [], model = []\<rparr>
      (Some (PyList [PyLong (- 3)])))) None)
     = Inr (PyBool True, Some [Some PyNone, Some (PyBool True), Some (PyBool False), Some (PyBool True)])"
proof -
  let ?S = "\<lparr>nVars = 3, clauses = [[Lit 0 False], [Lit 1 True], [Lit 2 False],
          [Lit 0 True, Lit 1 False, Lit 2 False]], xors = [], model = []\<rparr>"
  have c5: "convert_lit_to_sign_and_var (PyLong 5) = Inr ((4, False), None)"
    by (simp add: convert_lit_to_sign_and_var_def INT_halves LONG_MIN_def LONG_MAX_def)
  note t1 = assumptions_contract [of "[PyLong (- 3)]" "PyLong 5" 4 False None ?S ref_search "[]"
      "Some (PyList [PyLong (- 3)])"]
  from t1 c5 have a: "solve ref_search ?S (Some (PyList [PyLong (- 3), PyLong 5])) = (Inl ValueError, ?S)"
    by simp
  have b: "fst (solve ref_search ?S (Some (PyList [PyLong (- 3)]))) = Inr (PyBool False, None)"
    by code_simp
  have "fst (solve ref_search ?S None)
     = Inr (PyBool True, Some [Some PyNone, Some (PyBool True), Some (PyBool False), Some (PyBool True)])"
    by code_simp
  with t1 have c: "fst (solve ref_search (snd (solve ref_search ?S (Some (PyList [PyLong (- 3)])))) None)
     = Inr (PyBool True, Some [Some PyNone, Some (PyBool True), Some (PyBool False), Some (PyBool True)])"
    by simp
  from a b c show ?thesis by blast
qed

subsection \<open>The pre-declared variable count of the bulk form\<close>

lemma pregrow_grow:
  "(if mv \<ge> int (nVars (pregrow k s))
    then cmsat_new_vars (nat (mv - int (nVars (pregrow k s)) + 1)) (pregrow k s)
    else pregrow k s)
   = pregrow k (if mv \<ge> int (nVars s) then cmsat_new_vars (nat (mv - int (nVars s) + 1)) s else s)"
  by (auto simp: pregrow_def cmsat_new_vars_def max_def nat_add_distrib nat_diff_distrib')

lemma pregrow_grow_cond:
  "(if b \<and> mv \<ge> int (nVars (pregrow k s))
    then cmsat_new_vars (nat (mv - int (nVars (pregrow k s)) + 1)) (pregrow k s)
    else pregrow k s)
   = pregrow k (if b \<and> mv \<ge> int (nVars s) then cmsat_new_vars (nat (mv - int (nVars s) + 1)) s else s)"
  using pregrow_grow [where mv = mv and k = k and s = s] by (cases b) simp_all

lemma pregrow_add_clause: "cmsat_add_clause c (pregrow k s) = pregrow k (cmsat_add_clause c s)"
  by (simp add: pregrow_def cmsat_add_clause_def)

lemma pregrow_parse_clause:
  "parse_clause (pregrow k s) c l0
     = (fst (parse_clause s c l0), pregrow k (snd (parse_clause s c l0)))"
proof (cases "PyObject_GetIter c")
  case None
  then show ?thesis by (simp add: parse_clause_def)
next
  case (Some items)
  show ?thesis
  proof (cases "parse_clause_loop items 0 l0 None")
    case (Inl e)
    with Some show ?thesis by (simp add: parse_clause_def)
  next
    case (Inr t)
    obtain mv lits pend where t: "t = (mv, lits, pend)" by (cases t)
    show ?thesis
      using Some Inr t
      by (cases pend) (simp_all add: parse_clause_def Let_def pregrow_grow_cond)
  qed
qed

lemma pregrow_u_add_clause:
  "u_add_clause (pregrow k s) c = (fst (u_add_clause s c), pregrow k (snd (u_add_clause s c)))"
  unfolding u_add_clause_def pregrow_parse_clause
  by (cases "parse_clause s c []") (auto simp: pregrow_add_clause split: sum.splits)

lemma pregrow_add_clauses_loop:
  "add_clauses_loop cs (pregrow k s)
     = (fst (add_clauses_loop cs s), pregrow k (snd (add_clauses_loop cs s)))"
proof (induction cs arbitrary: s)
  case Nil
  show ?case by simp
next
  case (Cons c cs)
  obtain r s' where u: "u_add_clause s c = (r, s')" by (cases "u_add_clause s c")
  show ?case
    using u Cons.IH [of s'] by (cases r) (simp_all add: pregrow_u_add_clause)
qed

lemma pregrow_array_loop:
  "u_add_clauses_from_array_loop xs (pregrow k s)
     = (fst (u_add_clauses_from_array_loop xs s), pregrow k (snd (u_add_clauses_from_array_loop xs s)))"
proof (induction xs s rule: u_add_clauses_from_array_loop.induct)
  case (1 self)
  show ?case by (simp add: u_add_clauses_from_array_loop.simps)
next
  case (2 val rest self)
  show ?case
  proof (cases "array_run (val # rest) [] 0")
    case (Inl e)
    then show ?thesis by (simp add: u_add_clauses_from_array_loop.simps)
  next
    case (Inr t)
    obtain stop lits max_var where t: "t = (stop, lits, max_var)" by (cases t)
    let ?g = "\<lambda>s. (if lits \<noteq> [] then
               cmsat_add_clause lits
                 (if max_var \<ge> int (nVars s)
                  then cmsat_new_vars (nat (max_var - int (nVars s) + 1)) s
                  else s)
             else s)"
    have g: "?g (pregrow k self) = pregrow k (?g self)"
      using pregrow_grow [where mv = max_var and k = k and s = self] by (simp add: pregrow_add_clause)
    have l1: "u_add_clauses_from_array_loop (val # rest) (pregrow k self)
        = u_add_clauses_from_array_loop (tl stop) (?g (pregrow k self))"
      by (simp only: u_add_clauses_from_array_loop.simps(2) [of val rest] Inr t sum.case prod.case)
    have l2: "u_add_clauses_from_array_loop (val # rest) self
        = u_add_clauses_from_array_loop (tl stop) (?g self)"
      by (simp only: u_add_clauses_from_array_loop.simps(2) [of val rest] Inr t sum.case prod.case)
    show ?thesis
      unfolding l1 l2 g by (rule "2.IH" [OF Inr [unfolded t] refl refl])
  qed
qed

lemma pregrow_add_clauses_array:
  "add_clauses_array (pregrow k s) tc isz xs
     = (fst (add_clauses_array s tc isz xs), pregrow k (snd (add_clauses_array s tc isz xs)))"
  by (simp add: add_clauses_array_def u_add_clauses_from_buffer_info_def
      u_add_clauses_from_array_def pregrow_array_loop split: option.splits)

text \<open>
  C8, as amended. Supplying \<open>max_var\<close> to \<open>add_clauses\<close> changes neither the outcome of the
  call nor the clauses, XOR clauses and model of the final state; the variable space of
  the final state is the larger of \<open>max_var\<close> and the size reached without it.
\<close>

theorem max_var_pregrows:
  "add_clauses self cs mv
     = (fst (add_clauses self cs 0), pregrow (nat mv) (snd (add_clauses self cs 0)))"
proof -
  have a: "(if mv > int (nVars self) then cmsat_new_vars (nat (mv - int (nVars self))) self else self)
      = pregrow (nat mv) self"
    by (auto simp: pregrow_def cmsat_new_vars_def max_def nat_diff_distrib')
  show ?thesis
    unfolding add_clauses_def Let_def a
    by (cases cs) (simp_all add: pregrow_add_clauses_loop pregrow_add_clauses_array
        del: add_clauses_loop.simps)
qed

theorem max_var_pregrows_witness:
  "add_clauses \<lparr>nVars = 0, clauses = [], xors = [], model = []\<rparr> (PyList [PyList [PyLong 1, PyLong (- 7)]]) 3
     = (Inr (), \<lparr>nVars = 7, clauses = [[Lit 0 False, Lit 6 True]], xors = [], model = []\<rparr>)
   \<and> add_clauses \<lparr>nVars = 0, clauses = [], xors = [], model = []\<rparr> (PyList [PyList [PyLong 1, PyLong (- 7)]]) 0
     = (Inr (), \<lparr>nVars = 7, clauses = [[Lit 0 False, Lit 6 True]], xors = [], model = []\<rparr>)"
  using max_var_pregrows [of "\<lparr>nVars = 0, clauses = [], xors = [], model = []\<rparr>"
      "PyList [PyList [PyLong 1, PyLong (- 7)]]" 3]
  by (simp add: add_clauses_def u_add_clause_def parse_clause_def convert_lit_to_sign_and_var_def
      INT_halves LONG_MIN_def LONG_MAX_def cmsat_new_vars_def cmsat_add_clause_def pregrow_def)

text \<open>
  The claim as stated fails: with \<open>max_var = 5\<close> the single clause \<open>[1]\<close> leaves five
  variables, without it one.
\<close>

theorem max_var_state_counterexample:
  "add_clauses \<lparr>nVars = 0, clauses = [], xors = [], model = []\<rparr> (PyList [PyList [PyLong 1]]) 5
     = (Inr (), \<lparr>nVars = 5, clauses = [[Lit 0 False]], xors = [], model = []\<rparr>)
   \<and> add_clauses \<lparr>nVars = 0, clauses = [], xors = [], model = []\<rparr> (PyList [PyList [PyLong 1]]) 0
     = (Inr (), \<lparr>nVars = 1, clauses = [[Lit 0 False]], xors = [], model = []\<rparr>)
   \<and> snd (add_clauses \<lparr>nVars = 0, clauses = [], xors = [], model = []\<rparr> (PyList [PyList [PyLong 1]]) 5)
     \<noteq> snd (add_clauses \<lparr>nVars = 0, clauses = [], xors = [], model = []\<rparr> (PyList [PyList [PyLong 1]]) 0)"
  by (simp add: add_clauses_def u_add_clause_def parse_clause_def convert_lit_to_sign_and_var_def
      INT_halves LONG_MIN_def LONG_MAX_def cmsat_new_vars_def cmsat_add_clause_def)

subsection \<open>The blocking clause\<close>

lemma ban_solution_loop_eq:
  "ban_solution_loop ls m ban
     = ban @ map (\<lambda>l. Lit (var l) (m ! var l = l_True)) (filter (\<lambda>l. \<not> sign l) ls)"
  by (induction ls arbitrary: ban) simp_all

lemma ban_solution_eq:
  "ban_solution ls m = map (\<lambda>l. Lit (var l) (m ! var l = l_True)) (filter (\<lambda>l. \<not> sign l) ls)"
  by (simp add: ban_solution_def ban_solution_loop_eq)

lemma msolve_loop_sat_step:
  assumes "cmsat_solve slv [] self = (l_True, self1)" and "cur < max_nr"
    and "(if \<not> raw then get_solution self1 else get_raw_solution self1) = Inr solution"
  shows "msolve_loop slv max_nr cur var_lits raw sols self
     = msolve_loop slv max_nr (cur + 1) var_lits raw (sols @ [solution])
         (if cur + 1 < max_nr
          then cmsat_add_clause (ban_solution var_lits (model self1)) self1
          else self1)"
  using assms by (simp add: msolve_loop.simps [of slv max_nr cur])

lemma render_total:
  "nVars s \<le> length (model s) \<Longrightarrow>
     \<exists>solution. (if \<not> raw then get_solution s else get_raw_solution s) = Inr solution"
  by (simp add: get_solution_def get_raw_solution_def Let_def)

subsection \<open>The projection of the enumeration\<close>

lemma parse_clause_grows:
  assumes "parse_clause self c [] = (Inr lits, s1)" and "l \<in> set lits"
    and "nVars self \<le> var l" and "\<forall>l' \<in> set lits. var l' \<le> var l"
  shows "s1 = cmsat_new_vars (var l - nVars self + 1) self"
proof -
  from parse_clause_ok [OF assms(1)]
  have s1: "s1 = (if lits \<noteq> [] \<and> max_var_of lits \<ge> int (nVars self)
             then cmsat_new_vars (nat (max_var_of lits - int (nVars self) + 1)) self
             else self)" by blast
  from assms(2,4) have mv: "max_var_of lits = int (var l)"
    unfolding max_var_of_def by (intro fold_max_is_max) auto
  from assms(2) have ne: "lits \<noteq> []" by auto
  from assms(3) mv ne show ?thesis
    unfolding s1 by (simp add: nat_diff_distrib' nat_add_distrib int_ops)
qed

text \<open>
  C10. \<open>msolve_selected\<close> parses the projection with \<open>parse_clause\<close>, the parser of clause
  ingestion, and runs its loop on the engine state that parser returns. So the variable
  space covers every projected variable before the first solve; when the largest projected
  index is not below the previous size, \<open>parse_clause\<close> has grown the space to that index
  plus one, and the grown size is the size after the call, whatever the number of
  solutions asked for and whatever the engine answers.
\<close>

theorem projection_grows_space:
  "parse_clause self var_selected [] = (Inr var_lits, self1) \<longrightarrow>
     msolve_selected slv self n var_selected raw = msolve_loop slv n 0 var_lits raw [] self1
     \<and> nVars (snd (msolve_selected slv self n var_selected raw)) = nVars self1
     \<and> (\<forall>l \<in> set var_lits. var l < nVars self1)
     \<and> (\<forall>l \<in> set var_lits. nVars self \<le> var l \<and> (\<forall>l' \<in> set var_lits. var l' \<le> var l) \<longrightarrow>
          self1 = cmsat_new_vars (var l - nVars self + 1) self
          \<and> nVars self < nVars self1 \<and> nVars self1 = var l + 1)"
proof
  assume p: "parse_clause self var_selected [] = (Inr var_lits, self1)"
  then have a: "msolve_selected slv self n var_selected raw
      = msolve_loop slv n 0 var_lits raw [] self1"
    by (simp add: msolve_selected_def)
  obtain r s' where l: "msolve_loop slv n 0 var_lits raw [] self1 = (r, s')"
    by (cases "msolve_loop slv n 0 var_lits raw [] self1")
  from msolve_loop_frame [OF l] a l
  have b: "nVars (snd (msolve_selected slv self n var_selected raw)) = nVars self1"
    by simp
  have c: "\<forall>l \<in> set var_lits. var l < nVars self1"
    using parse_clause_covers [OF p] by blast
  have d: "\<forall>l \<in> set var_lits. nVars self \<le> var l \<and> (\<forall>l' \<in> set var_lits. var l' \<le> var l) \<longrightarrow>
          self1 = cmsat_new_vars (var l - nVars self + 1) self
          \<and> nVars self < nVars self1 \<and> nVars self1 = var l + 1"
  proof (intro ballI impI)
    fix l assume l: "l \<in> set var_lits"
      and m: "nVars self \<le> var l \<and> (\<forall>l' \<in> set var_lits. var l' \<le> var l)"
    then have "self1 = cmsat_new_vars (var l - nVars self + 1) self"
      using parse_clause_grows [OF p l] by blast
    with m show "self1 = cmsat_new_vars (var l - nVars self + 1) self
          \<and> nVars self < nVars self1 \<and> nVars self1 = var l + 1"
      by (simp add: cmsat_new_vars_def)
  qed
  from a b c d show "msolve_selected slv self n var_selected raw = msolve_loop slv n 0 var_lits raw [] self1
     \<and> nVars (snd (msolve_selected slv self n var_selected raw)) = nVars self1
     \<and> (\<forall>l \<in> set var_lits. var l < nVars self1)
     \<and> (\<forall>l \<in> set var_lits. nVars self \<le> var l \<and> (\<forall>l' \<in> set var_lits. var l' \<le> var l) \<longrightarrow>
          self1 = cmsat_new_vars (var l - nVars self + 1) self
          \<and> nVars self < nVars self1 \<and> nVars self1 = var l + 1)"
    by blast
qed

theorem projection_grows_space_witness:
  "parse_clause \<lparr>nVars = 1, clauses = [], xors = [], model = []\<rparr> (PyList [PyLong 3, PyLong (- 2)]) []
     = (Inr [Lit 2 False, Lit 1 True], \<lparr>nVars = 3, clauses = [], xors = [], model = []\<rparr>)
   \<and> nVars (snd (msolve_selected ref_search \<lparr>nVars = 1, clauses = [], xors = [], model = []\<rparr> 0
        (PyList [PyLong 3, PyLong (- 2)]) True)) = 3
   \<and> cmsat_new_vars (2 - 1 + 1) \<lparr>nVars = 1, clauses = [], xors = [], model = []\<rparr>
     = \<lparr>nVars = 3, clauses = [], xors = [], model = []\<rparr>"
proof -
  let ?S = "\<lparr>nVars = 1, clauses = [], xors = [], model = []\<rparr>"
  let ?S1 = "\<lparr>nVars = 3, clauses = [], xors = [], model = []\<rparr>"
  have p: "parse_clause ?S (PyList [PyLong 3, PyLong (- 2)]) [] = (Inr [Lit 2 False, Lit 1 True], ?S1)"
    by (simp add: parse_clause_def convert_lit_to_sign_and_var_def
      INT_halves LONG_MIN_def LONG_MAX_def cmsat_new_vars_def)
  from projection_grows_space [where self = ?S and var_selected = "PyList [PyLong 3, PyLong (- 2)]"
      and var_lits = "[Lit 2 False, Lit 1 True]" and ?self1.0 = ?S1 and slv = ref_search and n = 0
      and raw = True, rule_format, OF p]
  have "nVars (snd (msolve_selected ref_search ?S 0 (PyList [PyLong 3, PyLong (- 2)]) True)) = nVars ?S1"
    by blast
  with p show ?thesis by (simp add: cmsat_new_vars_def)
qed

subsection \<open>The enumeration\<close>

lemma slot_differs:
  assumes "(if \<not> raw then get_solution sa else get_raw_solution sa) = Inr a"
    and "(if \<not> raw then get_solution sb else get_raw_solution sb) = Inr b"
    and "v < nVars sa" and "v < nVars sb" and "model sa ! v \<noteq> model sb ! v"
  shows "a ! (if raw then v else v + 1) \<noteq> b ! (if raw then v else v + 1)"
proof (cases raw)
  case True
  with assms have "get_raw_solution sa = Inr a" "get_raw_solution sb = Inr b" by simp_all
  from raw_slot(1) [OF this(1) assms(3)] raw_slot(1) [OF this(2) assms(4)] assms(5) True
  show ?thesis
    by (cases "model sa ! v"; cases "model sb ! v") simp_all
next
  case False
  with assms have "get_solution sa = Inr a" "get_solution sb = Inr b" by simp_all
  from dense_slot [OF this(1), of "v + 1"] dense_slot [OF this(2), of "v + 1"] assms(3,4,5) False
  show ?thesis
    by (cases "model sa ! v"; cases "model sb ! v") simp_all
qed

lemma render_cong:
  "nVars a = nVars b \<Longrightarrow> model a = model b \<Longrightarrow>
     (if \<not> raw then get_solution a else get_raw_solution a)
       = (if \<not> raw then get_solution b else get_raw_solution b)"
  by (simp add: get_solution_def get_raw_solution_def Let_def)

lemma banned_mono:
  assumes "banned raw vl s sol" and "nVars s' = nVars s" and "set (clauses s) \<subseteq> set (clauses s')"
  shows "banned raw vl s' sol"
proof -
  from assms(1) obtain m where m: "length m = nVars s"
    and r: "(if \<not> raw then get_solution (s\<lparr>model := m\<rparr>) else get_raw_solution (s\<lparr>model := m\<rparr>)) = Inr sol"
    and b: "ban_solution vl m \<in> set (clauses s)"
    unfolding banned_def by blast
  have "(if \<not> raw then get_solution (s'\<lparr>model := m\<rparr>) else get_raw_solution (s'\<lparr>model := m\<rparr>))
      = (if \<not> raw then get_solution (s\<lparr>model := m\<rparr>) else get_raw_solution (s\<lparr>model := m\<rparr>))"
    by (rule render_cong) (simp_all add: assms(2))
  with m r b assms(2,3) show ?thesis
    unfolding banned_def by (intro exI [of _ m]) auto
qed

lemma banned_differs:
  assumes b: "banned raw vl s sol"
    and cov: "\<forall>l \<in> set vl. var l < nVars s"
    and sat: "\<forall>c \<in> set (clauses s). \<exists>l \<in> set c. lit_true m l"
    and len: "length m = nVars s"
    and r: "(if \<not> raw then get_solution (s\<lparr>model := m\<rparr>) else get_raw_solution (s\<lparr>model := m\<rparr>)) = Inr sol'"
  shows "differ_on raw vl sol sol'"
proof -
  from b obtain mi where mi: "length mi = nVars s"
    and ri: "(if \<not> raw then get_solution (s\<lparr>model := mi\<rparr>) else get_raw_solution (s\<lparr>model := mi\<rparr>)) = Inr sol"
    and bi: "ban_solution vl mi \<in> set (clauses s)"
    unfolding banned_def by blast
  from sat bi obtain L where L: "L \<in> set (ban_solution vl mi)" and t: "lit_true m L" by blast
  from L obtain l where l: "l \<in> set vl" "\<not> sign l" and Ll: "L = Lit (var l) (mi ! var l = l_True)"
    unfolding ban_solution_eq by auto
  from t Ll have d: "model (s\<lparr>model := mi\<rparr>) ! var l \<noteq> model (s\<lparr>model := m\<rparr>) ! var l"
    by (auto simp: lit_true_def split: if_splits)
  from cov l have v: "var l < nVars (s\<lparr>model := mi\<rparr>)" "var l < nVars (s\<lparr>model := m\<rparr>)" by simp_all
  from slot_differs [OF ri r v d] l show ?thesis
    unfolding differ_on_def by blast
qed

lemma msolve_loop_differ:
  assumes "engine_sound slv" and "\<forall>l \<in> set var_lits. var l < nVars s"
    and "msolve_loop slv mx cur var_lits raw sols s = (Inr out, s')"
    and "pairwise_differ raw var_lits sols"
    and "cur < mx \<longrightarrow> (\<forall>sol \<in> set sols. banned raw var_lits s sol)"
  shows "pairwise_differ raw var_lits out"
  using assms
proof (induction slv mx cur var_lits raw sols s rule: msolve_loop.induct)
  case (1 slv max_nr cur var_lits raw solutions self)
  note sound = "1.prems"(1) and cov = "1.prems"(2) and run = "1.prems"(3)
    and D = "1.prems"(4) and I = "1.prems"(5)
  show ?case
  proof (cases "cur < max_nr")
    case False
    with run D show ?thesis by (simp add: msolve_loop.simps)
  next
    case True
    obtain res m where r: "slv (nVars self) (clauses self) (xors self) [] = (res, m)"
      by (cases "slv (nVars self) (clauses self) (xors self) []")
    let ?self1 = "self\<lparr>model := m\<rparr>"
    from r have cs: "cmsat_solve slv [] self = (res, ?self1)"
      by (simp add: cmsat_solve_def)
    show ?thesis
    proof (cases res)
      case l_False
      with run True cs D show ?thesis by (simp add: msolve_loop.simps)
    next
      case l_Undef
      with run True cs show ?thesis by (simp add: msolve_loop.simps)
    next
      case l_True
      from sound r l_True have len: "length m = nVars self"
        and sat: "\<forall>c \<in> set (clauses self). \<exists>l \<in> set c. lit_true m l"
        unfolding engine_sound_def by blast+
      from len obtain solution where
        rd: "(if \<not> raw then get_solution ?self1 else get_raw_solution ?self1) = Inr solution"
        using render_total [of ?self1 raw] by auto
      let ?s2 = "(if cur + 1 < max_nr
                     then cmsat_add_clause (ban_solution var_lits (model ?self1)) ?self1
                     else ?self1)"
      from msolve_loop_sat_step [OF cs [unfolded l_True] True rd, of var_lits solutions] run
      have eq: "msolve_loop slv max_nr (cur + 1) var_lits raw (solutions @ [solution]) ?s2
          = (Inr out, s')"
        by simp
      have n2: "nVars ?s2 = nVars self" and c2: "set (clauses self) \<subseteq> set (clauses ?s2)"
        by (auto simp: cmsat_add_clause_def)
      have cov2: "\<forall>l \<in> set var_lits. var l < nVars ?s2"
        using cov n2 by simp
      have old: "\<forall>sol \<in> set solutions. banned raw var_lits self sol"
        using I True by blast
      have D2: "pairwise_differ raw var_lits (solutions @ [solution])"
        unfolding pairwise_differ_def
      proof (intro allI impI)
        fix i j assume ij: "i < j \<and> j < length (solutions @ [solution])"
        show "differ_on raw var_lits ((solutions @ [solution]) ! i) ((solutions @ [solution]) ! j)"
        proof (cases "j < length solutions")
          case True
          with ij D show ?thesis
            unfolding pairwise_differ_def by (simp add: nth_append)
        next
          case False
          with ij have j: "j = length solutions" and i: "i < length solutions" by simp_all
          from i old have "banned raw var_lits self (solutions ! i)" by simp
          from banned_differs [OF this cov sat len rd] i j show ?thesis
            by (simp add: nth_append)
        qed
      qed
      have I2: "cur + 1 < max_nr \<longrightarrow> (\<forall>sol \<in> set (solutions @ [solution]). banned raw var_lits ?s2 sol)"
      proof (intro impI ballI)
        fix sol assume more: "cur + 1 < max_nr" and sol: "sol \<in> set (solutions @ [solution])"
        show "banned raw var_lits ?s2 sol"
        proof (cases "sol \<in> set solutions")
          case True
          with old have "banned raw var_lits self sol" by blast
          then show ?thesis using n2 c2 by (rule banned_mono)
        next
          case False
          with sol have e: "sol = solution" by simp
          have "(if \<not> raw then get_solution (?s2\<lparr>model := m\<rparr>) else get_raw_solution (?s2\<lparr>model := m\<rparr>))
              = (if \<not> raw then get_solution ?self1 else get_raw_solution ?self1)"
            by (rule render_cong) (simp_all add: cmsat_add_clause_def)
          with rd more len show ?thesis
            unfolding banned_def e
            by (intro exI [of _ m]) (simp add: cmsat_add_clause_def)
        qed
      qed
      from "1.IH" [OF True cs [symmetric] l_True rd sound cov2 eq D2 I2] show ?thesis .
    qed
  qed
qed

lemma msolve_loop_length:
  "msolve_loop slv mx cur vl raw sols s = (Inr out, s') \<Longrightarrow>
     int (length out) \<le> int (length sols) + max 0 (mx - cur)"
proof (induction slv mx cur vl raw sols s rule: msolve_loop.induct)
  case (1 slv max_nr cur var_lits raw solutions self)
  show ?case
  proof (cases "cur < max_nr")
    case False
    with "1.prems" show ?thesis by (simp add: msolve_loop.simps)
  next
    case True
    obtain res self1 where cs: "cmsat_solve slv [] self = (res, self1)"
      by (cases "cmsat_solve slv [] self")
    show ?thesis
    proof (cases res)
      case l_False
      with "1.prems" True cs show ?thesis by (simp add: msolve_loop.simps)
    next
      case l_Undef
      with "1.prems" True cs show ?thesis by (simp add: msolve_loop.simps)
    next
      case l_True
      show ?thesis
      proof (cases "if \<not> raw then get_solution self1 else get_raw_solution self1")
        case (Inl e)
        with "1.prems" True cs l_True show ?thesis by (simp add: msolve_loop.simps)
      next
        case (Inr solution)
        let ?s2 = "(if cur + 1 < max_nr
                     then cmsat_add_clause (ban_solution var_lits (model self1)) self1
                     else self1)"
        from msolve_loop_sat_step [OF cs [unfolded l_True] True Inr, of var_lits solutions] "1.prems"
        have eq: "msolve_loop slv max_nr (cur + 1) var_lits raw (solutions @ [solution]) ?s2
            = (Inr out, s')"
          by simp
        from "1.IH" [OF True cs [symmetric] l_True Inr eq] True show ?thesis by simp
      qed
    qed
  qed
qed

text \<open>
  C9. When \<open>msolve_selected\<close> returns a list of solutions: the list has at most
  \<open>max_nr_of_solutions\<close> entries (none when that number is not positive); for a sound
  engine any two entries differ in the slot of a projected variable; and for
  \<open>max_nr_of_solutions \<le> 0\<close> the list is empty and the engine state is the one
  \<open>parse_clause\<close> returned. With \<open>max_nr_of_solutions = 0\<close> the call does not depend on the
  search procedure at all: the engine's solve is never invoked.
\<close>

theorem enumeration_contract:
  "(msolve_selected slv self max_nr var_selected raw = (Inr sols, self')
      \<and> parse_clause self var_selected [] = (Inr var_lits, self1) \<longrightarrow>
      int (length sols) \<le> max 0 max_nr
      \<and> (engine_sound slv \<longrightarrow>
           (\<forall>i j. i < j \<and> j < length sols \<longrightarrow> differ_on raw var_lits (sols ! i) (sols ! j)))
      \<and> (max_nr \<le> 0 \<longrightarrow> sols = [] \<and> self' = self1))
   \<and> msolve_selected slv self 0 var_selected raw = msolve_selected slv' self 0 var_selected raw
   \<and> (parse_clause self var_selected [] = (Inr var_lits, self1) \<longrightarrow>
        msolve_selected slv self 0 var_selected raw = (Inr [], self1))"
proof (intro conjI)
  show "msolve_selected slv self max_nr var_selected raw = (Inr sols, self')
      \<and> parse_clause self var_selected [] = (Inr var_lits, self1) \<longrightarrow>
      int (length sols) \<le> max 0 max_nr
      \<and> (engine_sound slv \<longrightarrow>
           (\<forall>i j. i < j \<and> j < length sols \<longrightarrow> differ_on raw var_lits (sols ! i) (sols ! j)))
      \<and> (max_nr \<le> 0 \<longrightarrow> sols = [] \<and> self' = self1)"
  proof
    assume h: "msolve_selected slv self max_nr var_selected raw = (Inr sols, self')
      \<and> parse_clause self var_selected [] = (Inr var_lits, self1)"
    then have p: "parse_clause self var_selected [] = (Inr var_lits, self1)"
      and l: "msolve_loop slv max_nr 0 var_lits raw [] self1 = (Inr sols, self')"
      by (auto simp: msolve_selected_def)
    from msolve_loop_length [OF l] have a: "int (length sols) \<le> max 0 max_nr" by simp
    have b: "engine_sound slv \<longrightarrow>
           (\<forall>i j. i < j \<and> j < length sols \<longrightarrow> differ_on raw var_lits (sols ! i) (sols ! j))"
    proof
      assume sound: "engine_sound slv"
      have cov: "\<forall>l \<in> set var_lits. var l < nVars self1"
        using parse_clause_covers [OF p] by blast
      have "pairwise_differ raw var_lits sols"
        by (rule msolve_loop_differ [OF sound cov l]) (simp_all add: pairwise_differ_def)
      then show "\<forall>i j. i < j \<and> j < length sols \<longrightarrow> differ_on raw var_lits (sols ! i) (sols ! j)"
        unfolding pairwise_differ_def .
    qed
    have c: "max_nr \<le> 0 \<longrightarrow> sols = [] \<and> self' = self1"
      using l by (auto simp: msolve_loop.simps)
    from a b c show "int (length sols) \<le> max 0 max_nr
      \<and> (engine_sound slv \<longrightarrow>
           (\<forall>i j. i < j \<and> j < length sols \<longrightarrow> differ_on raw var_lits (sols ! i) (sols ! j)))
      \<and> (max_nr \<le> 0 \<longrightarrow> sols = [] \<and> self' = self1)"
      by blast
  qed
  show "msolve_selected slv self 0 var_selected raw = msolve_selected slv' self 0 var_selected raw"
    by (simp add: msolve_selected_def msolve_loop.simps split: prod.splits sum.splits)
  show "parse_clause self var_selected [] = (Inr var_lits, self1) \<longrightarrow>
        msolve_selected slv self 0 var_selected raw = (Inr [], self1)"
    by (simp add: msolve_selected_def msolve_loop.simps)
qed

theorem enumeration_contract_witness:
  "engine_sound ref_search
   \<and> msolve_selected ref_search
        \<lparr>nVars = 2, clauses = [[Lit 0 False, Lit 1 False]], xors = [], model = []\<rparr> 5
        (PyList [PyLong 1, PyLong 2]) True
      = (Inr [[Some (PyLong 1), Some (PyLong 2)], [Some (PyLong (- 1)), Some (PyLong 2)],
              [Some (PyLong 1), Some (PyLong (- 2))]],
         \<lparr>nVars = 2, clauses = [[Lit 0 False, Lit 1 False], [Lit 0 True, Lit 1 True],
              [Lit 0 False, Lit 1 True], [Lit 0 True, Lit 1 False]], xors = [], model = []\<rparr>)
   \<and> differ_on True [Lit 0 False, Lit 1 False]
        [Some (PyLong (- 1)), Some (PyLong 2)] [Some (PyLong 1), Some (PyLong (- 2))]
   \<and> msolve_selected ref_search
        \<lparr>nVars = 2, clauses = [[Lit 0 False, Lit 1 False]], xors = [], model = []\<rparr> 0
        (PyList [PyLong 1, PyLong 2]) True
      = (Inr [], \<lparr>nVars = 2, clauses = [[Lit 0 False, Lit 1 False]], xors = [], model = []\<rparr>)"
proof -
  let ?S = "\<lparr>nVars = 2, clauses = [[Lit 0 False, Lit 1 False]], xors = [], model = []\<rparr>"
  let ?S' = "\<lparr>nVars = 2, clauses = [[Lit 0 False, Lit 1 False], [Lit 0 True, Lit 1 True],
              [Lit 0 False, Lit 1 True], [Lit 0 True, Lit 1 False]], xors = [], model = []\<rparr>"
  let ?sols = "[[Some (PyLong 1), Some (PyLong 2)], [Some (PyLong (- 1)), Some (PyLong 2)],
              [Some (PyLong 1), Some (PyLong (- 2))]]"
  let ?P = "PyList [PyLong 1, PyLong 2]"
  have m: "msolve_selected ref_search ?S 5 ?P True = (Inr ?sols, ?S')"
    by code_simp
  have p: "parse_clause ?S ?P [] = (Inr [Lit 0 False, Lit 1 False], ?S)"
    by code_simp
  note t = enumeration_contract [where slv = ref_search and self = ?S and max_nr = 5
      and var_selected = ?P and raw = True and sols = ?sols and self' = ?S'
      and var_lits = "[Lit 0 False, Lit 1 False]" and ?self1.0 = ?S]
  from t m p ref_search_sound
  have "\<forall>i j. i < j \<and> j < length ?sols \<longrightarrow>
      differ_on True [Lit 0 False, Lit 1 False] (?sols ! i) (?sols ! j)"
    by blast
  then have "(1::nat) < 2 \<and> 2 < length ?sols \<longrightarrow>
      differ_on True [Lit 0 False, Lit 1 False] (?sols ! 1) (?sols ! 2)"
    by blast
  then have d: "differ_on True [Lit 0 False, Lit 1 False]
        [Some (PyLong (- 1)), Some (PyLong 2)] [Some (PyLong 1), Some (PyLong (- 2))]"
    by simp
  from t p have z: "msolve_selected ref_search ?S 0 ?P True = (Inr [], ?S)"
    by blast
  from ref_search_sound m d z show ?thesis by blast
qed

subsection \<open>The blocking clauses in the returned state\<close>

lemma render_covers:
  "(if \<not> raw then get_solution s else get_raw_solution s) = Inr sol \<Longrightarrow>
     nVars s \<le> length (model s)"
  by (auto simp: get_solution_def get_raw_solution_def Let_def split: if_splits)

lemma cmsat_solve_model:
  "cmsat_solve slv as s = (r, s1) \<Longrightarrow> s1 = s\<lparr>model := model s1\<rparr>"
  by (auto simp: cmsat_solve_def split: prod.splits)

lemma msolve_loop_clauses:
  "msolve_loop slv mx cur vl raw sols s = (Inr out, s') \<Longrightarrow>
     \<exists>ms news. out = sols @ news
       \<and> list_all2 (\<lambda>m sol. nVars s \<le> length m
            \<and> (if \<not> raw then get_solution (s\<lparr>model := m\<rparr>)
                else get_raw_solution (s\<lparr>model := m\<rparr>)) = Inr sol) ms news
       \<and> clauses s' = clauses s @ map (ban_solution vl) (take (nat (mx - cur - 1)) ms)"
proof (induction slv mx cur vl raw sols s rule: msolve_loop.induct)
  case (1 slv max_nr cur var_lits raw solutions self)
  let ?R = "\<lambda>s m sol. nVars s \<le> length m
            \<and> (if \<not> raw then get_solution (s\<lparr>model := m\<rparr>)
                else get_raw_solution (s\<lparr>model := m\<rparr>)) = Inr sol"
  show ?case
  proof (cases "cur < max_nr")
    case False
    with "1.prems" have "out = solutions @ []" "s' = self"
      by (simp_all add: msolve_loop.simps)
    then show ?thesis
      by (intro exI [of _ "[]"]) simp
  next
    case True
    obtain res self1 where cs: "cmsat_solve slv [] self = (res, self1)"
      by (cases "cmsat_solve slv [] self")
    note fr = cmsat_solve_frame [OF cs]
    show ?thesis
    proof (cases res)
      case l_False
      with "1.prems" True cs have "out = solutions @ []" "s' = self1"
        by (simp_all add: msolve_loop.simps)
      with fr show ?thesis
        by (intro exI [of _ "[]"]) simp
    next
      case l_Undef
      with "1.prems" True cs show ?thesis by (simp add: msolve_loop.simps)
    next
      case l_True
      show ?thesis
      proof (cases "if \<not> raw then get_solution self1 else get_raw_solution self1")
        case (Inl e)
        with "1.prems" True cs l_True show ?thesis by (simp add: msolve_loop.simps)
      next
        case (Inr solution)
        let ?m = "model self1"
        let ?s2 = "(if cur + 1 < max_nr
                     then cmsat_add_clause (ban_solution var_lits (model self1)) self1
                     else self1)"
        from msolve_loop_sat_step [OF cs [unfolded l_True] True Inr, of var_lits solutions] "1.prems"
        have eq: "msolve_loop slv max_nr (cur + 1) var_lits raw (solutions @ [solution]) ?s2
            = (Inr out, s')"
          by simp
        from "1.IH" [OF True cs [symmetric] l_True Inr eq]
        obtain ms news where o: "out = (solutions @ [solution]) @ news"
          and r: "list_all2 (?R ?s2) ms news"
          and c: "clauses s' = clauses ?s2
              @ map (ban_solution var_lits) (take (nat (max_nr - (cur + 1) - 1)) ms)"
          by blast
        have s1: "self1 = self\<lparr>model := ?m\<rparr>" by (rule cmsat_solve_model [OF cs])
        have n2: "nVars ?s2 = nVars self" using fr by (simp add: cmsat_add_clause_def)
        have Rm: "?R self ?m solution"
          using Inr render_covers [OF Inr] fr by (auto simp: s1 [symmetric] split: if_splits)
        have Rr: "list_all2 (?R self) ms news"
        proof (rule list_all2_mono [OF r])
          fix m sol assume a: "?R ?s2 m sol"
          have "(if \<not> raw then get_solution (self\<lparr>model := m\<rparr>)
                else get_raw_solution (self\<lparr>model := m\<rparr>))
              = (if \<not> raw then get_solution (?s2\<lparr>model := m\<rparr>)
                else get_raw_solution (?s2\<lparr>model := m\<rparr>))"
            by (rule render_cong) (simp_all add: n2)
          with a n2 show "?R self m sol" by simp
        qed
        have c2: "clauses ?s2 = clauses self
            @ (if cur + 1 < max_nr then [ban_solution var_lits ?m] else [])"
          using fr by (simp add: cmsat_add_clause_def)
        have tk: "map (ban_solution var_lits) (take (nat (max_nr - cur - 1)) (?m # ms))
            = (if cur + 1 < max_nr then [ban_solution var_lits ?m] else [])
              @ map (ban_solution var_lits) (take (nat (max_nr - (cur + 1) - 1)) ms)"
        proof (cases "cur + 1 < max_nr")
          case True
          then have "nat (max_nr - cur - 1) = Suc (nat (max_nr - (cur + 1) - 1))" by simp
          with True show ?thesis by simp
        next
          case False
          then have "nat (max_nr - cur - 1) = 0" "nat (max_nr - (cur + 1) - 1) = 0" by simp_all
          with False show ?thesis by simp
        qed
        have "out = solutions @ (solution # news)" using o by simp
        moreover have "list_all2 (?R self) (?m # ms) (solution # news)"
          using Rm Rr by simp
        moreover have "clauses s' = clauses self
            @ map (ban_solution var_lits) (take (nat (max_nr - cur - 1)) (?m # ms))"
          unfolding tk c c2 by simp
        ultimately show ?thesis by blast
      qed
    qed
  qed
qed

lemma msolve_loop_sat_clauses:
  assumes "cmsat_solve slv [] self = (l_True, self1)" and "nVars self1 \<le> length (model self1)"
    and "cur + 1 < max_nr"
    and "msolve_loop slv max_nr cur var_lits raw sols self = (r, s')"
  shows "\<exists>ys. clauses s' = clauses self @ ban_solution var_lits (model self1) # ys"
proof -
  from assms(2) obtain solution where
    rd: "(if \<not> raw then get_solution self1 else get_raw_solution self1) = Inr solution"
    using render_total [of self1 raw] by blast
  from assms(3) have c: "cur < max_nr" by simp
  from msolve_loop_sat_step [OF assms(1) c rd, of var_lits sols] assms(3,4)
  have "msolve_loop slv max_nr (cur + 1) var_lits raw (sols @ [solution])
      (cmsat_add_clause (ban_solution var_lits (model self1)) self1) = (r, s')"
    by simp
  from msolve_loop_frame [OF this] obtain ys where
    "clauses s' = clauses (cmsat_add_clause (ban_solution var_lits (model self1)) self1) @ ys"
    by blast
  with cmsat_solve_frame [OF assms(1)] show ?thesis
    by (simp add: cmsat_add_clause_def)
qed

text \<open>
  C1. In an iteration of the loop of \<open>msolve_selected\<close> in which the engine answers
  satisfiable (with a model that covers the variables) and more iterations remain, the
  loop goes on with the solution appended and with one clause added to the engine, the
  blocking clause, and whatever the loop returns in the end, its engine state holds that
  clause right after the clauses the iteration started with. Over a whole call that
  returns its solutions, the clauses of the returned state are the clauses from before
  the call followed by the blocking clauses of the models of the first
  \<open>max_nr_of_solutions - 1\<close> solutions, in order, each solution being the rendering of its
  model. The blocking clause holds, in order, one literal for each entry of the
  projection whose sign is false, and nothing for the entries whose sign is true. For
  such an entry whose variable has a definite value in the model, the literal is the one
  on that variable that is false in the model (negative when the value is true, positive
  when it is false), and the opposite literal is not in the clause. The entries of the
  projection are the decoded items of \<open>var_selected\<close>; an integer \<open>v\<close> gives the sign
  \<open>v < 0\<close>.
\<close>

theorem blocking_clause:
  "(cmsat_solve slv [] self = (l_True, self1) \<and> nVars self1 \<le> length (model self1)
      \<and> cur + 1 < max_nr \<longrightarrow>
      (\<exists>solution. (if \<not> raw then get_solution self1 else get_raw_solution self1) = Inr solution
         \<and> msolve_loop slv max_nr cur var_lits raw sols self
             = msolve_loop slv max_nr (cur + 1) var_lits raw (sols @ [solution])
                 (cmsat_add_clause (ban_solution var_lits (model self1)) self1))
      \<and> clauses (cmsat_add_clause (ban_solution var_lits (model self1)) self1)
           = clauses self @ [ban_solution var_lits (model self1)]
      \<and> (\<forall>r s'. msolve_loop slv max_nr cur var_lits raw sols self = (r, s') \<longrightarrow>
            (\<exists>ys. clauses s' = clauses self @ ban_solution var_lits (model self1) # ys)))
   \<and> (msolve_selected slv self0 max_nr var_selected raw = (Inr solutions, self_end)
        \<and> parse_clause self0 var_selected [] = (Inr var_lits, self) \<longrightarrow>
        (\<exists>ms. list_all2 (\<lambda>m sol. nVars self \<le> length m
                  \<and> (if \<not> raw then get_solution (self\<lparr>model := m\<rparr>)
                      else get_raw_solution (self\<lparr>model := m\<rparr>)) = Inr sol) ms solutions
           \<and> clauses self_end
                = clauses self0 @ map (ban_solution var_lits) (take (nat (max_nr - 1)) ms)))
   \<and> ban_solution var_lits m
        = map (\<lambda>l. Lit (var l) (m ! var l = l_True)) (filter (\<lambda>l. \<not> sign l) var_lits)
   \<and> (\<forall>l \<in> set var_lits. \<not> sign l \<and> var l < length m \<and> m ! var l \<noteq> l_Undef \<longrightarrow>
         Lit (var l) (m ! var l = l_True) \<in> set (ban_solution var_lits m)
         \<and> \<not> lit_true m (Lit (var l) (m ! var l = l_True))
         \<and> Lit (var l) (m ! var l \<noteq> l_True) \<notin> set (ban_solution var_lits m))
   \<and> ((\<forall>l \<in> set var_lits. sign l) \<longrightarrow> ban_solution var_lits m = [])
   \<and> (parse_clause self0 var_selected [] = (Inr var_lits, self) \<and>
        PyObject_GetIter var_selected = Some items \<longrightarrow>
        var_lits = map decode_lit items
        \<and> (\<forall>v. PyLong v \<in> set items \<longrightarrow> sign (decode_lit (PyLong v)) = (v < 0)))"
proof -
  have a: "cmsat_solve slv [] self = (l_True, self1) \<and> nVars self1 \<le> length (model self1)
      \<and> cur + 1 < max_nr \<longrightarrow>
      (\<exists>solution. (if \<not> raw then get_solution self1 else get_raw_solution self1) = Inr solution
         \<and> msolve_loop slv max_nr cur var_lits raw sols self
             = msolve_loop slv max_nr (cur + 1) var_lits raw (sols @ [solution])
                 (cmsat_add_clause (ban_solution var_lits (model self1)) self1))
      \<and> clauses (cmsat_add_clause (ban_solution var_lits (model self1)) self1)
           = clauses self @ [ban_solution var_lits (model self1)]
      \<and> (\<forall>r s'. msolve_loop slv max_nr cur var_lits raw sols self = (r, s') \<longrightarrow>
            (\<exists>ys. clauses s' = clauses self @ ban_solution var_lits (model self1) # ys))"
  proof
    assume h: "cmsat_solve slv [] self = (l_True, self1) \<and> nVars self1 \<le> length (model self1)
      \<and> cur + 1 < max_nr"
    then obtain solution where
      r: "(if \<not> raw then get_solution self1 else get_raw_solution self1) = Inr solution"
      using render_total [of self1 raw] by blast
    from h have c: "cur < max_nr" by simp
    from h have s: "cmsat_solve slv [] self = (l_True, self1)"
      and cov: "nVars self1 \<le> length (model self1)" and more: "cur + 1 < max_nr" by simp_all
    from msolve_loop_sat_step [OF s c r, of var_lits sols] h
    have a1: "msolve_loop slv max_nr cur var_lits raw sols self
             = msolve_loop slv max_nr (cur + 1) var_lits raw (sols @ [solution])
                 (cmsat_add_clause (ban_solution var_lits (model self1)) self1)"
      by simp
    have a2: "clauses (cmsat_add_clause (ban_solution var_lits (model self1)) self1)
           = clauses self @ [ban_solution var_lits (model self1)]"
      using cmsat_solve_frame [OF s] by (simp add: cmsat_add_clause_def)
    have a3: "\<forall>r s'. msolve_loop slv max_nr cur var_lits raw sols self = (r, s') \<longrightarrow>
            (\<exists>ys. clauses s' = clauses self @ ban_solution var_lits (model self1) # ys)"
      using msolve_loop_sat_clauses [OF s cov more] by blast
    from r a1 a2 a3 show "(\<exists>solution. (if \<not> raw then get_solution self1 else get_raw_solution self1) = Inr solution
         \<and> msolve_loop slv max_nr cur var_lits raw sols self
             = msolve_loop slv max_nr (cur + 1) var_lits raw (sols @ [solution])
                 (cmsat_add_clause (ban_solution var_lits (model self1)) self1))
      \<and> clauses (cmsat_add_clause (ban_solution var_lits (model self1)) self1)
           = clauses self @ [ban_solution var_lits (model self1)]
      \<and> (\<forall>r s'. msolve_loop slv max_nr cur var_lits raw sols self = (r, s') \<longrightarrow>
            (\<exists>ys. clauses s' = clauses self @ ban_solution var_lits (model self1) # ys))"
      by blast
  qed
  have w: "msolve_selected slv self0 max_nr var_selected raw = (Inr solutions, self_end)
        \<and> parse_clause self0 var_selected [] = (Inr var_lits, self) \<longrightarrow>
        (\<exists>ms. list_all2 (\<lambda>m sol. nVars self \<le> length m
                  \<and> (if \<not> raw then get_solution (self\<lparr>model := m\<rparr>)
                      else get_raw_solution (self\<lparr>model := m\<rparr>)) = Inr sol) ms solutions
           \<and> clauses self_end
                = clauses self0 @ map (ban_solution var_lits) (take (nat (max_nr - 1)) ms))"
  proof
    assume h: "msolve_selected slv self0 max_nr var_selected raw = (Inr solutions, self_end)
        \<and> parse_clause self0 var_selected [] = (Inr var_lits, self)"
    then have p: "parse_clause self0 var_selected [] = (Inr var_lits, self)"
      and l: "msolve_loop slv max_nr 0 var_lits raw [] self = (Inr solutions, self_end)"
      by (auto simp: msolve_selected_def)
    from msolve_loop_clauses [OF l] parse_clause_frame [OF p]
    show "\<exists>ms. list_all2 (\<lambda>m sol. nVars self \<le> length m
                  \<and> (if \<not> raw then get_solution (self\<lparr>model := m\<rparr>)
                      else get_raw_solution (self\<lparr>model := m\<rparr>)) = Inr sol) ms solutions
           \<and> clauses self_end
                = clauses self0 @ map (ban_solution var_lits) (take (nat (max_nr - 1)) ms)"
      by auto
  qed
  have b: "ban_solution var_lits m
        = map (\<lambda>l. Lit (var l) (m ! var l = l_True)) (filter (\<lambda>l. \<not> sign l) var_lits)"
    by (rule ban_solution_eq)
  have c: "\<forall>l \<in> set var_lits. \<not> sign l \<and> var l < length m \<and> m ! var l \<noteq> l_Undef \<longrightarrow>
         Lit (var l) (m ! var l = l_True) \<in> set (ban_solution var_lits m)
         \<and> \<not> lit_true m (Lit (var l) (m ! var l = l_True))
         \<and> Lit (var l) (m ! var l \<noteq> l_True) \<notin> set (ban_solution var_lits m)"
  proof (intro ballI impI)
    fix l assume l: "l \<in> set var_lits"
      and h: "\<not> sign l \<and> var l < length m \<and> m ! var l \<noteq> l_Undef"
    from l h have "Lit (var l) (m ! var l = l_True) \<in> set (ban_solution var_lits m)"
      unfolding b by (auto simp: image_iff)
    moreover from h have "\<not> lit_true m (Lit (var l) (m ! var l = l_True))"
      by (cases "m ! var l") (simp_all add: lit_true_def)
    moreover have "Lit (var l) (m ! var l \<noteq> l_True) \<notin> set (ban_solution var_lits m)"
      unfolding b by auto
    ultimately show "Lit (var l) (m ! var l = l_True) \<in> set (ban_solution var_lits m)
         \<and> \<not> lit_true m (Lit (var l) (m ! var l = l_True))
         \<and> Lit (var l) (m ! var l \<noteq> l_True) \<notin> set (ban_solution var_lits m)"
      by blast
  qed
  have d: "(\<forall>l \<in> set var_lits. sign l) \<longrightarrow> ban_solution var_lits m = []"
    unfolding b by (simp add: filter_empty_conv)
  have e: "parse_clause self0 var_selected [] = (Inr var_lits, self) \<and>
        PyObject_GetIter var_selected = Some items \<longrightarrow>
        var_lits = map decode_lit items
        \<and> (\<forall>v. PyLong v \<in> set items \<longrightarrow> sign (decode_lit (PyLong v)) = (v < 0))"
  proof
    assume h: "parse_clause self0 var_selected [] = (Inr var_lits, self) \<and>
        PyObject_GetIter var_selected = Some items"
    with parse_clause_ok [of self0 var_selected var_lits self]
    have vl: "var_lits = map decode_lit items"
      and pend: "\<forall>x \<in> set items. snd (PyLong_AsLong x) = None"
      by auto
    have "sign (decode_lit (PyLong v)) = (v < 0)" if "PyLong v \<in> set items" for v
    proof -
      from pend that have "LONG_MIN \<le> v \<and> v \<le> LONG_MAX"
        by (auto split: if_splits)
      then show ?thesis by (simp add: decode_lit_def Let_def)
    qed
    with vl show "var_lits = map decode_lit items
        \<and> (\<forall>v. PyLong v \<in> set items \<longrightarrow> sign (decode_lit (PyLong v)) = (v < 0))"
      by blast
  qed
  from a w b c d e show ?thesis by blast
qed

theorem blocking_clause_witness:
  "cmsat_solve ref_search []
       \<lparr>nVars = 2, clauses = [[Lit 0 False, Lit 1 False]], xors = [], model = []\<rparr>
     = (l_True, \<lparr>nVars = 2, clauses = [[Lit 0 False, Lit 1 False]], xors = [],
          model = [l_True, l_True]\<rparr>)
   \<and> msolve_selected ref_search
       \<lparr>nVars = 2, clauses = [[Lit 0 False, Lit 1 False]], xors = [], model = []\<rparr> 2
       (PyList [PyLong 1, PyLong (- 2)]) True
     = (Inr [[Some (PyLong 1), Some (PyLong 2)], [Some (PyLong (- 1)), Some (PyLong 2)]],
        \<lparr>nVars = 2, clauses = [[Lit 0 False, Lit 1 False], [Lit 0 True]], xors = [],
          model = [l_False, l_True]\<rparr>)
   \<and> (\<exists>ys. clauses \<lparr>nVars = 2, clauses = [[Lit 0 False, Lit 1 False], [Lit 0 True]], xors = [],
          model = [l_False, l_True]\<rparr>
        = [[Lit 0 False, Lit 1 False]] @ ban_solution [Lit 0 False, Lit 1 True] [l_True, l_True] # ys)
   \<and> ban_solution [Lit 0 False, Lit 1 True] [l_True, l_True] = [Lit 0 True]
   \<and> \<not> lit_true [l_True, l_True] (Lit 0 True)"
proof -
  let ?S = "\<lparr>nVars = 2, clauses = [[Lit 0 False, Lit 1 False]], xors = [], model = []\<rparr>"
  let ?S1 = "\<lparr>nVars = 2, clauses = [[Lit 0 False, Lit 1 False]], xors = [],
          model = [l_True, l_True]\<rparr>"
  let ?E = "\<lparr>nVars = 2, clauses = [[Lit 0 False, Lit 1 False], [Lit 0 True]], xors = [],
          model = [l_False, l_True]\<rparr>"
  let ?VL = "[Lit 0 False, Lit 1 True]"
  let ?sols = "[[Some (PyLong 1), Some (PyLong 2)], [Some (PyLong (- 1)), Some (PyLong 2)]]"
  have s: "cmsat_solve ref_search [] ?S = (l_True, ?S1)"
    by code_simp
  have ms: "msolve_selected ref_search ?S 2 (PyList [PyLong 1, PyLong (- 2)]) True = (Inr ?sols, ?E)"
    by code_simp
  have ml: "msolve_loop ref_search 2 0 ?VL True [] ?S = (Inr ?sols, ?E)"
    by code_simp
  note t = blocking_clause [where slv = ref_search and self = ?S and ?self1.0 = ?S1 and cur = 0
      and max_nr = 2 and raw = True and var_lits = ?VL and sols = "[]" and m = "[l_True, l_True]"]
  have h: "cmsat_solve ref_search [] ?S = (l_True, ?S1) \<and> nVars ?S1 \<le> length (model ?S1)
      \<and> (0::int) + 1 < 2"
    using s by simp
  from t h have "\<forall>r s'. msolve_loop ref_search 2 0 ?VL True [] ?S = (r, s') \<longrightarrow>
            (\<exists>ys. clauses s' = clauses ?S @ ban_solution ?VL (model ?S1) # ys)"
    by blast
  with ml have e: "\<exists>ys. clauses ?E = clauses ?S @ ban_solution ?VL (model ?S1) # ys"
    by blast
  have b: "ban_solution ?VL [l_True, l_True] = [Lit 0 True]"
    using t by simp
  have n: "\<not> lit_true [l_True, l_True] (Lit 0 True)"
    using t by (simp add: lit_true_def)
  from e have e': "\<exists>ys. clauses ?E = [[Lit 0 False, Lit 1 False]] @ ban_solution ?VL [l_True, l_True] # ys"
    by simp
  from s ms e' b n show ?thesis by blast
qed

end
